theory Spec2Isabelle
  imports Complex_Main
begin

section \<open>Errors and array shapes\<close>

text \<open>
  The exceptions that the modelled functions and the numpy routines they call can raise.
  A function that can raise returns \<open>error + 'a\<close>, with \<open>Inl\<close> the exception.
\<close>

datatype error = ValueError | IndexError | ZeroDivisionError

text \<open>
  A two-dimensional numpy array is the list of its rows. \<open>a.shape\<close> is
  \<open>(nrows a, ncols a)\<close>; \<open>rect\<close> says that all rows have the same length, which
  every numpy array satisfies. An array without rows is \<open>[]\<close> whatever its column
  count, so all shapes \<open>(0, k)\<close> are identified with \<open>(0, 0)\<close>.
\<close>

definition nrows :: "'a list list \<Rightarrow> nat" where
  "nrows a = length a"

definition ncols :: "'a list list \<Rightarrow> nat" where
  "ncols a = (case a of [] \<Rightarrow> 0 | r # _ \<Rightarrow> length r)"

definition rect :: "'a list list \<Rightarrow> bool" where
  "rect a = list_all (\<lambda>r. length r = ncols a) a"

section \<open>Transform-friendly sizes\<close>

text \<open>
  \<^verbatim>\<open>
  def next32(n):
      while n%32 !=0:
          n+=1
      return n
  \<close>
  Python integers are unbounded and \<open>%\<close> with a positive modulus is the floor modulus,
  which is \<open>mod\<close> on \<open>int\<close>. The loop is the recursion below; its termination is
  proved with the measure \<open>(- n) mod 32\<close>, so the function is total.
\<close>

function next32 :: "int \<Rightarrow> int" where
  "next32 n = (if n mod 32 \<noteq> 0 then next32 (n + 1) else n)"
  by pat_completeness auto
termination
proof (relation "measure (\<lambda>n. nat ((- n) mod 32))")
  show "wf (measure (\<lambda>n::int. nat ((- n) mod 32)))" by simp
next
  fix n :: int
  assume a: "n mod 32 \<noteq> 0"
  then have nz: "(- n) mod 32 \<noteq> 0" by (simp add: mod_eq_0_iff_dvd)
  have "0 \<le> (- n) mod 32" "(- n) mod 32 < 32" by simp_all
  with nz have b: "0 \<le> (- n) mod 32 - 1" "(- n) mod 32 - 1 < 32" by linarith+
  have "(- n - 1) mod 32 = ((- n) mod 32 - 1) mod 32" by (simp add: mod_diff_left_eq)
  also have "\<dots> = (- n) mod 32 - 1" using b by (rule mod_pos_pos_trivial)
  finally have "(- (n + 1)) mod 32 = (- n) mod 32 - 1" by simp
  with b show "(n + 1, n) \<in> measure (\<lambda>n. nat ((- n) mod 32))" by simp
qed

declare next32.simps [simp del]

section \<open>The numpy routines of the Fourier resampler\<close>

text \<open>
  The repository calls \<open>numpy.fft.rfftfreq\<close>, \<open>numpy.fft.fftfreq\<close>,
  \<open>numpy.meshgrid\<close>, \<open>numpy.searchsorted\<close>, \<open>numpy.fft.rfft2\<close> and
  \<open>numpy.fft.irfft2\<close>. They are modelled after numpy's own code and documentation, over
  the real and complex numbers: samples are exact, there is no rounding.

  \<open>rfftfreq(n, d)\<close> computes \<open>val = 1.0/(n*d)\<close> and returns
  \<open>arange(0, n//2 + 1) * val\<close>; \<open>fftfreq(n, d)\<close> returns
  \<open>[0, 1, ..., (n-1)//2, -(n//2), ..., -1] * val\<close>. With a Python scalar \<open>d\<close> the
  division raises ZeroDivisionError when \<open>n*d\<close> is zero. numpy rounds \<open>val\<close> and each
  product, so an entry of its axis can lie one rounding step off the exact frequency
  here: the order of the entries is the same, but a cutoff that is equal or next to a
  frequency of the grid can compare differently with the rounded entry. Statements
  about a cutoff are therefore made relative to the entries of the field.
\<close>

definition rfft_axis :: "nat \<Rightarrow> real \<Rightarrow> real list" where
  "rfft_axis n d = map (\<lambda>k. real k * (1 / (real n * d))) [0..<n div 2 + 1]"

definition fft_index :: "nat \<Rightarrow> int list" where
  "fft_index n = map int [0..<(n - 1) div 2 + 1] @ map (\<lambda>j. int j - int (n div 2)) [0..<n div 2]"

definition fft_axis :: "nat \<Rightarrow> real \<Rightarrow> real list" where
  "fft_axis n d = map (\<lambda>k. real_of_int k * (1 / (real n * d))) (fft_index n)"

definition rfftfreq :: "nat \<Rightarrow> real \<Rightarrow> error + real list" where
  "rfftfreq n d = (if real n * d = 0 then Inl ZeroDivisionError else Inr (rfft_axis n d))"

definition fftfreq :: "nat \<Rightarrow> real \<Rightarrow> error + real list" where
  "fftfreq n d = (if real n * d = 0 then Inl ZeroDivisionError else Inr (fft_axis n d))"

text \<open>
  \<open>meshgrid(xs, ys)\<close> gives the two arrays \<open>x[i][j] = xs[j]\<close> and \<open>y[i][j] = ys[i]\<close>
  of shape \<open>(len(ys), len(xs))\<close>; \<open>radial xs ys\<close> is \<open>sqrt(x**2 + y**2)\<close> of them.
\<close>

definition radial :: "real list \<Rightarrow> real list \<Rightarrow> real list list" where
  "radial xs ys = map (\<lambda>y. map (\<lambda>x. sqrt (x\<^sup>2 + y\<^sup>2)) xs) ys"

text \<open>
  \<open>searchsorted(a, v)\<close> with the default \<open>side='left'\<close> is numpy's binary search:
  \<^verbatim>\<open>
  while (min_idx < max_idx) {
      mid = min_idx + ((max_idx - min_idx) >> 1);
      if (a[mid] < v) min_idx = mid + 1; else max_idx = mid;
  }
  return min_idx;
  \<close>
  The index \<open>mid\<close> is always below \<open>max_idx\<close>, which starts at the length of \<open>a\<close>.
\<close>

function binsearch :: "real list \<Rightarrow> real \<Rightarrow> nat \<Rightarrow> nat \<Rightarrow> nat" where
  "binsearch a v min_idx max_idx =
     (if min_idx < max_idx then
        (let mid = min_idx + (max_idx - min_idx) div 2
         in if a ! mid < v then binsearch a v (mid + 1) max_idx
            else binsearch a v min_idx mid)
      else min_idx)"
  by pat_completeness auto
termination
  by (relation "measure (\<lambda>(a, v, lo, hi). hi - lo)") auto

declare binsearch.simps [simp del]

definition searchsorted :: "real list \<Rightarrow> real \<Rightarrow> nat" where
  "searchsorted a v = binsearch a v 0 (length a)"

text \<open>
  \<open>rfft2\<close> is the two-dimensional discrete Fourier transform of a real array, of which
  the columns \<open>0 .. n//2\<close> are kept; \<open>irfft2\<close> inverts it for an output of
  \<open>2 * (columns - 1)\<close> columns: an inverse transform along the rows' index, then the
  complex-to-real transform along each row, which reads only the real part of the first
  and the last coefficient. Both raise ValueError ("Invalid number of FFT data points")
  when an axis of the transform has no points.
\<close>

definition twiddle :: "nat \<Rightarrow> nat \<Rightarrow> nat \<Rightarrow> complex" where
  "twiddle n k m = cis (2 * pi * real k * real m / real n)"

definition rfft2 :: "real list list \<Rightarrow> error + complex list list" where
  "rfft2 a =
     (let M = nrows a; N = ncols a
      in if M = 0 \<or> N = 0 then Inl ValueError
         else Inr (map (\<lambda>k. map (\<lambda>l.
                 (\<Sum>m<M. \<Sum>n<N. complex_of_real (a ! m ! n) * cnj (twiddle M k m) * cnj (twiddle N l n)))
               [0..<N div 2 + 1]) [0..<M]))"

definition ifft_axis0 :: "complex list list \<Rightarrow> nat \<Rightarrow> nat \<Rightarrow> complex" where
  "ifft_axis0 A m l = (\<Sum>k<nrows A. A ! k ! l * twiddle (nrows A) k m)"

definition irfft2 :: "complex list list \<Rightarrow> error + real list list" where
  "irfft2 A =
     (let M = nrows A; C = ncols A; N = 2 * (C - 1)
      in if M = 0 \<or> C \<le> 1 then Inl ValueError
         else Inr (map (\<lambda>m. map (\<lambda>n.
                 (Re (ifft_axis0 A m 0)
                  + (\<Sum>l = 1..<C - 1. 2 * Re (ifft_axis0 A m l * twiddle N l n))
                  + Re (ifft_axis0 A m (C - 1)) * (- 1) ^ n) / real (M * N))
               [0..<N]) [0..<M]))"

text \<open>
  The truth value of a numpy array, as \<open>if mic_freqs:\<close> asks for it: an array with more
  than one element raises ValueError ("The truth value of an array with more than one
  element is ambiguous"), an array with one element has that element's truth value, and
  an empty array is false.
\<close>

definition array_truth :: "real list list \<Rightarrow> error + bool" where
  "array_truth a =
     (case concat a of [] \<Rightarrow> Inr False | [x] \<Rightarrow> Inr (x \<noteq> 0) | _ \<Rightarrow> Inl ValueError)"

text \<open>
  Broadcasting: an operand of an in-place operation on an array of shape \<open>(r, c)\<close> must
  have, on each axis, either that axis's length or length 1, and is repeated along the
  axes of length 1; any other shape raises ValueError.
\<close>

definition broadcast_to :: "nat \<Rightarrow> nat \<Rightarrow> 'a list list \<Rightarrow> error + 'a list list" where
  "broadcast_to r c a =
     (if (nrows a = r \<or> nrows a = 1) \<and> (ncols a = c \<or> ncols a = 1)
      then Inr (map (\<lambda>i. map (\<lambda>j. a ! (if nrows a = 1 then 0 else i) ! (if ncols a = 1 then 0 else j))
                  [0..<c]) [0..<r])
      else Inl ValueError)"

section \<open>Frequency grid and Fourier resampling\<close>

text \<open>
  \<^verbatim>\<open>
  def get_mic_freqs(mic, apix, angles=False):
      n_x, n_y = mic.shape
      x,y =  np.meshgrid(rfftfreq(n_y,d=apix), fftfreq(n_x,d=apix))
      s = np.sqrt(x**2 + y**2)
      if angles: ... else: return s
  \<close>
  The branch \<open>angles=True\<close>, which also returns \<open>arctan2(y, x)\<close>, is not called by any function
  below and is left out.
\<close>

definition get_mic_freqs :: "real list list \<Rightarrow> real \<Rightarrow> error + real list list" where
  "get_mic_freqs mic apix =
     (let n_x = nrows mic; n_y = ncols mic
      in case rfftfreq n_y apix of Inl e \<Rightarrow> Inl e
         | Inr xs \<Rightarrow>
             (case fftfreq n_x apix of Inl e \<Rightarrow> Inl e
              | Inr ys \<Rightarrow> Inr (radial xs ys)))"

text \<open>
  \<^verbatim>\<open>
  def fourier_crop(mic_ft, mic_freqs, cutoff):
      n_x, n_y = mic_ft.shape
      f_h = mic_freqs[0]
      f_v = mic_freqs[:n_x//2,0]
      c_h = np.searchsorted(f_h, cutoff)
      c_v = np.searchsorted(f_v, cutoff)
      mic_ft_crop = np.vstack((mic_ft[:c_v, :c_h],
                               mic_ft[n_x - c_v:, :c_h]))
      return mic_ft_crop
  \<close>
  \<open>mic_freqs[0]\<close> raises IndexError on an array without rows and
  \<open>mic_freqs[:n_x//2,0]\<close> on one without columns. \<open>c_v\<close> is at most \<open>n_x//2\<close>, so
  the start \<open>n_x - c_v\<close> of the second slice is never negative and the slice is
  \<open>drop\<close>.
\<close>

definition fourier_crop ::
  "complex list list \<Rightarrow> real list list \<Rightarrow> real \<Rightarrow> error + complex list list" where
  "fourier_crop mic_ft mic_freqs cutoff =
     (let n_x = nrows mic_ft
      in case mic_freqs of [] \<Rightarrow> Inl IndexError
         | f_h # _ \<Rightarrow>
             if ncols mic_freqs = 0 then Inl IndexError
             else
               (let f_v = map (\<lambda>r. r ! 0) (take (n_x div 2) mic_freqs);
                    c_h = searchsorted f_h cutoff;
                    c_v = searchsorted f_v cutoff
                in Inr (map (take c_h) (take c_v mic_ft)
                        @ map (take c_h) (drop (n_x - c_v) mic_ft))))"

text \<open>
  The Butterworth factor of \<open>bin_mic\<close>, \<open>1./ (1.+ ( f/ cutoff )**(2*bwo))\<close>, for one
  frequency \<open>f\<close>. The order \<open>bwo\<close> is a natural number.
\<close>

definition butterworth :: "real \<Rightarrow> real \<Rightarrow> nat \<Rightarrow> real" where
  "butterworth f cutoff bwo = 1 / (1 + (f / cutoff) ^ (2 * bwo))"

text \<open>
  \<^verbatim>\<open>
  def bin_mic(mic, apix, cutoff, mic_freqs=None, lp=True, bwo=5):
      if mic_freqs:
          f = mic_freqs
      else:
          f = get_mic_freqs(mic, apix)
      mic_ft = rfft2(mic)
      if lp:
          mic_ft *=  1./ (1.+ ( f/ cutoff )**(2*bwo))
      mic_bin = irfft2(fourier_crop(mic_ft, f, cutoff)).real
      return mic_bin
  \<close>
  \<open>mic_freqs\<close> is \<open>None\<close> or an array; \<open>None\<close> is false. The in-place product
  broadcasts the factors to the shape of \<open>mic_ft\<close>. For \<open>cutoff = 0\<close> numpy's factors are
  0 or NaN where the model's are 1 (\<open>x / 0 = 0\<close> in HOL); with the field of
  \<open>get_mic_freqs\<close> and a positive pixel size the crop is then empty and no factor
  reaches the result. For every other cutoff the factors are numpy's.
\<close>

definition choose_freqs ::
  "real list list \<Rightarrow> real \<Rightarrow> real list list option \<Rightarrow> error + real list list" where
  "choose_freqs mic apix mic_freqs =
     (case mic_freqs of None \<Rightarrow> get_mic_freqs mic apix
      | Some F \<Rightarrow>
          (case array_truth F of Inl e \<Rightarrow> Inl e
           | Inr True \<Rightarrow> Inr F
           | Inr False \<Rightarrow> get_mic_freqs mic apix))"

definition low_pass ::
  "complex list list \<Rightarrow> real list list \<Rightarrow> real \<Rightarrow> nat \<Rightarrow> error + complex list list" where
  "low_pass mic_ft f cutoff bwo =
     (case broadcast_to (nrows mic_ft) (ncols mic_ft)
             (map (map (\<lambda>x. butterworth x cutoff bwo)) f) of
        Inl e \<Rightarrow> Inl e
      | Inr g \<Rightarrow> Inr (map2 (map2 (\<lambda>z x. z * complex_of_real x)) mic_ft g))"

definition bin_mic ::
  "real list list \<Rightarrow> real \<Rightarrow> real \<Rightarrow> real list list option \<Rightarrow> bool \<Rightarrow> nat
     \<Rightarrow> error + real list list" where
  "bin_mic mic apix cutoff mic_freqs lp bwo =
     (case choose_freqs mic apix mic_freqs of Inl e \<Rightarrow> Inl e
      | Inr f \<Rightarrow>
          (case rfft2 mic of Inl e \<Rightarrow> Inl e
           | Inr mic_ft \<Rightarrow>
               (case (if lp then low_pass mic_ft f cutoff bwo else Inr mic_ft) of
                  Inl e \<Rightarrow> Inl e
                | Inr mic_ft' \<Rightarrow>
                    (case fourier_crop mic_ft' f cutoff of Inl e \<Rightarrow> Inl e
                     | Inr mic_ft_crop \<Rightarrow> irfft2 mic_ft_crop))))"

section \<open>Floating-point scalars\<close>

text \<open>
  The correlation and SNR estimators return numpy \<open>float64\<close> scalars, on which a
  division by zero is not an exception: it yields an infinity or NaN (with a warning).
  A scalar is therefore a real number, an infinity or NaN; finite values are exact
  (no rounding, no overflow) and a zero divisor is taken to be \<open>+0\<close>. The operations
  are the IEEE ones that the estimators use.
\<close>

datatype npfloat = Fin real | PInf | NInf | NaN

fun fl_neg :: "npfloat \<Rightarrow> npfloat" where
  "fl_neg (Fin x) = Fin (- x)"
| "fl_neg PInf = NInf"
| "fl_neg NInf = PInf"
| "fl_neg NaN = NaN"

fun fl_add :: "npfloat \<Rightarrow> npfloat \<Rightarrow> npfloat" where
  "fl_add NaN _ = NaN"
| "fl_add _ NaN = NaN"
| "fl_add (Fin x) (Fin y) = Fin (x + y)"
| "fl_add PInf NInf = NaN"
| "fl_add NInf PInf = NaN"
| "fl_add PInf _ = PInf"
| "fl_add _ PInf = PInf"
| "fl_add NInf _ = NInf"
| "fl_add _ NInf = NInf"

definition fl_sub :: "npfloat \<Rightarrow> npfloat \<Rightarrow> npfloat" where
  "fl_sub a b = fl_add a (fl_neg b)"

fun fl_div :: "npfloat \<Rightarrow> npfloat \<Rightarrow> npfloat" where
  "fl_div NaN _ = NaN"
| "fl_div _ NaN = NaN"
| "fl_div (Fin x) (Fin y) =
     (if y \<noteq> 0 then Fin (x / y) else if x = 0 then NaN else if 0 < x then PInf else NInf)"
| "fl_div (Fin x) _ = Fin 0"
| "fl_div PInf (Fin y) = (if 0 \<le> y then PInf else NInf)"
| "fl_div NInf (Fin y) = (if 0 \<le> y then NInf else PInf)"
| "fl_div _ _ = NaN"

fun fl_sq :: "npfloat \<Rightarrow> npfloat" where
  "fl_sq (Fin x) = Fin (x\<^sup>2)"
| "fl_sq PInf = PInf"
| "fl_sq NInf = PInf"
| "fl_sq NaN = NaN"

text \<open>
  \<open>np.mean\<close> of a list of scalars is their sum divided by their number; for the empty
  list this is \<open>0.0 / 0 = NaN\<close>.
\<close>

definition np_mean :: "npfloat list \<Rightarrow> npfloat" where
  "np_mean cs = fl_div (foldl fl_add (Fin 0) cs) (Fin (real (length cs)))"

section \<open>Arrays in the store\<close>

text \<open>
  \<open>get_CC\<close> subtracts the mean from its arguments in place, so the arrays that the
  estimators work on live in a store: a list of arrays, addressed by position. An image
  is a two-dimensional array; \<open>np.array(patches)\<close> allocates a new three-dimensional
  array, the stack of the patches. A reference is an image \<open>Img a\<close> or the view
  \<open>Patch a i\<close>, which is \<open>patches[i]\<close> of the stack at address \<open>a\<close> and shares its
  memory. Entries are real numbers: the arrays are of a floating-point type and hold no
  NaN or infinity.
\<close>

datatype ndarray = Arr2 "real list list" | Arr3 "real list list list"

type_synonym heap = "ndarray list"

datatype aref = Img nat | Patch nat nat

fun fetch :: "heap \<Rightarrow> aref \<Rightarrow> real list list" where
  "fetch h (Img a) = (case h ! a of Arr2 x \<Rightarrow> x | Arr3 ps \<Rightarrow> [])"
| "fetch h (Patch a i) = (case h ! a of Arr3 ps \<Rightarrow> ps ! i | Arr2 x \<Rightarrow> [])"

fun store :: "heap \<Rightarrow> aref \<Rightarrow> real list list \<Rightarrow> heap" where
  "store h (Img a) v = h[a := Arr2 v]"
| "store h (Patch a i) v = (case h ! a of Arr3 ps \<Rightarrow> h[a := Arr3 (ps[i := v])] | Arr2 x \<Rightarrow> h)"

text \<open>
  A reference of a running program always denotes an array of its kind:
  \<open>valid h r\<close> says so of \<open>r\<close> in the store \<open>h\<close>, and that the array is rectangular.
\<close>

fun valid :: "heap \<Rightarrow> aref \<Rightarrow> bool" where
  "valid h (Img a) = (a < length h \<and> (case h ! a of Arr2 x \<Rightarrow> rect x | Arr3 ps \<Rightarrow> False))"
| "valid h (Patch a i) =
     (a < length h \<and> (case h ! a of Arr3 ps \<Rightarrow> i < length ps \<and> rect (ps ! i) | Arr2 x \<Rightarrow> False))"

definition stack_len :: "heap \<Rightarrow> nat \<Rightarrow> nat" where
  "stack_len h a = (case h ! a of Arr3 ps \<Rightarrow> length ps | Arr2 x \<Rightarrow> length x)"

section \<open>Patches\<close>

text \<open>
  \<open>int(x)\<close> of a Python float truncates towards zero. \<open>np.arange(0, stop, step)\<close> on
  integers has \<open>ceil(stop / step)\<close> elements \<open>0, step, 2 * step, ...\<close> (none when that is
  not positive) and raises ZeroDivisionError for \<open>step = 0\<close>. A slice \<open>xs[a:b]\<close> counts a
  negative bound from the end and clips both bounds to the list.
\<close>

definition py_int :: "real \<Rightarrow> int" where
  "py_int x = (if 0 \<le> x then \<lfloor>x\<rfloor> else \<lceil>x\<rceil>)"

definition arange :: "int \<Rightarrow> int \<Rightarrow> error + int list" where
  "arange stop step =
     (if step = 0 then Inl ZeroDivisionError
      else Inr (map (\<lambda>k. int k * step) [0..<nat (- ((- stop) div step))]))"

definition slice_index :: "nat \<Rightarrow> int \<Rightarrow> nat" where
  "slice_index n i = (if i < 0 then nat (i + int n) else min n (nat i))"

definition pyslice :: "int \<Rightarrow> int \<Rightarrow> 'a list \<Rightarrow> 'a list" where
  "pyslice a b xs =
     (let s = slice_index (length xs) a; e = slice_index (length xs) b
      in take (e - s) (drop s xs))"

text \<open>
  \<^verbatim>\<open>
  def get_patches(img, w=192, overlap=0):
      N_x, N_y = img.shape
      X_cd = np.arange(0,N_x-w,int(w*(1-overlap)), dtype=np.int)
      Y_cd = np.arange(0,N_y-w,int(w*(1-overlap)), dtype=np.int)
      patches = [ img[c[0]:c[0]+w, c[1]:c[1]+w]
                  for c in product(X_cd, Y_cd) ]
      return np.array(patches)
  \<close>
  \<open>patch_views\<close> is the list of the slices, which are views of \<open>img\<close>; \<open>np.array\<close> copies
  them into a new array, which \<open>get_patches\<close> appends to the store and whose address it
  returns. The patch size \<open>w\<close> is a natural number and \<open>overlap\<close> a real number. With a
  positive step all patches are \<open>w\<close> by \<open>w\<close>. Patches of unequal shapes can only come
  from a negative step, that is \<open>overlap > 1\<close>, which is no fraction of \<open>w\<close>; numpy then
  raises ValueError (from version 1.24) or builds an array of objects (before), and the
  model has the ValueError.
\<close>

definition uniform :: "real list list list \<Rightarrow> bool" where
  "uniform ps = list_all (\<lambda>p. nrows p = nrows (hd ps) \<and> list_all (\<lambda>r. length r = ncols (hd ps)) p) ps"

definition patch_views :: "real list list \<Rightarrow> nat \<Rightarrow> real \<Rightarrow> error + real list list list" where
  "patch_views img w overlap =
     (let N_x = nrows img; N_y = ncols img
      in case arange (int N_x - int w) (py_int (real w * (1 - overlap))) of Inl e \<Rightarrow> Inl e
         | Inr X_cd \<Rightarrow>
             (case arange (int N_y - int w) (py_int (real w * (1 - overlap))) of Inl e \<Rightarrow> Inl e
              | Inr Y_cd \<Rightarrow>
                  (let patches = map (\<lambda>c. map (pyslice (snd c) (snd c + int w))
                                             (pyslice (fst c) (fst c + int w) img))
                                   (List.product X_cd Y_cd)
                   in if uniform patches then Inr patches else Inl ValueError)))"

definition get_patches :: "aref \<Rightarrow> nat \<Rightarrow> real \<Rightarrow> heap \<Rightarrow> (error + nat) \<times> heap" where
  "get_patches img w overlap h =
     (case patch_views (fetch h img) w overlap of Inl e \<Rightarrow> (Inl e, h)
      | Inr patches \<Rightarrow> (Inr (length h), h @ [Arr3 patches]))"

section \<open>Cross-correlation and SNR\<close>

text \<open>
  \<open>x.mean()\<close> is the sum of the entries divided by their number, and \<open>x -= x.mean()\<close>
  subtracts it from every entry. An array without entries has the mean NaN and nothing
  to subtract it from; \<open>center\<close> leaves it as it is.
\<close>

definition sum2 :: "real list list \<Rightarrow> real" where
  "sum2 a = sum_list (concat a)"

definition mean2 :: "real list list \<Rightarrow> real" where
  "mean2 a = sum2 a / real (length (concat a))"

definition center :: "real list list \<Rightarrow> real list list" where
  "center a = map (map (\<lambda>x. x - mean2 a)) a"

text \<open>
  The product \<open>image1*image2\<close> broadcasts: on each axis the lengths must be equal or one
  of them 1, else numpy raises ValueError.
\<close>

definition bdim :: "nat \<Rightarrow> nat \<Rightarrow> nat option" where
  "bdim m n = (if m = n then Some m else if m = 1 then Some n else if n = 1 then Some m else None)"

definition mul2 :: "real list list \<Rightarrow> real list list \<Rightarrow> error + real list list" where
  "mul2 a b =
     (case (bdim (nrows a) (nrows b), bdim (ncols a) (ncols b)) of
        (Some r, Some c) \<Rightarrow>
          (case (broadcast_to r c a, broadcast_to r c b) of
             (Inr a', Inr b') \<Rightarrow> Inr (map2 (map2 (*)) a' b')
           | _ \<Rightarrow> Inl ValueError)
      | _ \<Rightarrow> Inl ValueError)"

definition square :: "real list list \<Rightarrow> real list list" where
  "square a = map (map (\<lambda>x. x\<^sup>2)) a"

text \<open>
  \<^verbatim>\<open>
  def get_CC(image1, image2):
      image1 -= image1.mean()
      image2 -= image2.mean()
      numerator = (image1*image2).sum()
      denominator = (image1**2).sum()**0.5 * (image2**2).sum()**0.5
      return numerator / denominator
  \<close>
  The two subtractions write to the store, one after the other; \<open>correlate\<close> is the rest,
  on the arrays as they then are. \<open>x**0.5\<close> of a sum of squares is its square root.
\<close>

definition correlate :: "real list list \<Rightarrow> real list list \<Rightarrow> error + npfloat" where
  "correlate a b =
     (case mul2 a b of Inl e \<Rightarrow> Inl e
      | Inr ab \<Rightarrow>
          (let numerator = sum2 ab;
               denominator = sqrt (sum2 (square a)) * sqrt (sum2 (square b))
           in Inr (fl_div (Fin numerator) (Fin denominator))))"

definition get_CC :: "aref \<Rightarrow> aref \<Rightarrow> heap \<Rightarrow> (error + npfloat) \<times> heap" where
  "get_CC image1 image2 h =
     (let h1 = store h image1 (center (fetch h image1));
          h2 = store h1 image2 (center (fetch h1 image2))
      in (correlate (fetch h2 image1) (fetch h2 image2), h2))"

text \<open>
  \<^verbatim>\<open>
  def get_patch_CC(image1, image2):
      patches1 = get_patches(image1)
      patches2 = get_patches(image2)
      n_patches = len(patches1)
      return np.mean([ get_CC(patches1[i], patches2[i])
                       for i in range(n_patches)])
  \<close>
  \<open>cc_loop\<close> is the list comprehension: it threads the store through the calls of
  \<open>get_CC\<close> and stops at the first exception. \<open>patches2[i]\<close> raises IndexError when
  the second stack has no patch \<open>i\<close>.
\<close>

fun cc_loop :: "nat \<Rightarrow> nat \<Rightarrow> nat list \<Rightarrow> heap \<Rightarrow> (error + npfloat list) \<times> heap" where
  "cc_loop patches1 patches2 [] h = (Inr [], h)"
| "cc_loop patches1 patches2 (i # is) h =
     (if stack_len h patches2 \<le> i then (Inl IndexError, h)
      else
        (case get_CC (Patch patches1 i) (Patch patches2 i) h of
           (Inl e, h') \<Rightarrow> (Inl e, h')
         | (Inr cc, h') \<Rightarrow>
             (case cc_loop patches1 patches2 is h' of
                (Inl e, h'') \<Rightarrow> (Inl e, h'')
              | (Inr ccs, h'') \<Rightarrow> (Inr (cc # ccs), h''))))"

definition get_patch_CC :: "aref \<Rightarrow> aref \<Rightarrow> heap \<Rightarrow> (error + npfloat) \<times> heap" where
  "get_patch_CC image1 image2 h =
     (case get_patches image1 192 0 h of
        (Inl e, h1) \<Rightarrow> (Inl e, h1)
      | (Inr patches1, h1) \<Rightarrow>
          (case get_patches image2 192 0 h1 of
             (Inl e, h2) \<Rightarrow> (Inl e, h2)
           | (Inr patches2, h2) \<Rightarrow>
               (let n_patches = stack_len h2 patches1
                in case cc_loop patches1 patches2 [0..<n_patches] h2 of
                     (Inl e, h3) \<Rightarrow> (Inl e, h3)
                   | (Inr ccs, h3) \<Rightarrow> (Inr (np_mean ccs), h3))))"

text \<open>
  \<^verbatim>\<open>
  def get_SNR(image1, image2):
      CC = get_patch_CC(image1, image2)
      return CC / (1. - CC)
  \<close>
\<close>

definition get_SNR :: "aref \<Rightarrow> aref \<Rightarrow> heap \<Rightarrow> (error + npfloat) \<times> heap" where
  "get_SNR image1 image2 h =
     (case get_patch_CC image1 image2 h of
        (Inl e, h') \<Rightarrow> (Inl e, h')
      | (Inr CC, h') \<Rightarrow> (Inr (fl_div CC (fl_sub (Fin 1) CC)), h'))"

text \<open>
  \<^verbatim>\<open>
  def get_denoised_SNR(raw_even, raw_odd, denoised_even, denoised_odd):
      SNR_raw_half = get_SNR(raw_even, raw_odd)
      SNR_mixed_half1 = get_SNR(denoised_even, raw_odd)
      SNR_mixed_half2 = get_SNR(raw_even, denoised_odd)
      SNR_mixed_half = (SNR_mixed_half1 + SNR_mixed_half2) / 2.
      SNR_denoised_half = (SNR_mixed_half**2)/SNR_raw_half
      return SNR_denoised_half, SNR_raw_half
  \<close>
\<close>

definition get_denoised_SNR ::
  "aref \<Rightarrow> aref \<Rightarrow> aref \<Rightarrow> aref \<Rightarrow> heap \<Rightarrow> (error + npfloat \<times> npfloat) \<times> heap" where
  "get_denoised_SNR raw_even raw_odd denoised_even denoised_odd h =
     (case get_SNR raw_even raw_odd h of
        (Inl e, h1) \<Rightarrow> (Inl e, h1)
      | (Inr SNR_raw_half, h1) \<Rightarrow>
          (case get_SNR denoised_even raw_odd h1 of
             (Inl e, h2) \<Rightarrow> (Inl e, h2)
           | (Inr SNR_mixed_half1, h2) \<Rightarrow>
               (case get_SNR raw_even denoised_odd h2 of
                  (Inl e, h3) \<Rightarrow> (Inl e, h3)
                | (Inr SNR_mixed_half2, h3) \<Rightarrow>
                    (let SNR_mixed_half = fl_div (fl_add SNR_mixed_half1 SNR_mixed_half2) (Fin 2);
                         SNR_denoised_half = fl_div (fl_sq SNR_mixed_half) SNR_raw_half
                     in (Inr (SNR_denoised_half, SNR_raw_half), h3)))))"

section \<open>The correlation coefficient of the specification\<close>

text \<open>
  The specification words the value of \<open>cross_correlation(a, b)\<close> as: mean-centre both
  inputs independently, return \<open>sum(a * b) / sqrt(sum(a ** 2) * sum(b ** 2))\<close>. This is
  that value as a function of the contents of the two arrays, with no store; the
  lemmas on the loop over the patches state what \<open>get_CC\<close> returns with it.
\<close>

definition spec_cross_correlation :: "real list list \<Rightarrow> real list list \<Rightarrow> npfloat" where
  "spec_cross_correlation a b =
     fl_div (Fin (sum2 (map2 (map2 (*)) (center a) (center b))))
            (Fin (sqrt (sum2 (square (center a)) * sum2 (square (center b)))))"

section \<open>Test images\<close>

text \<open>
  The square image of \<open>n\<close> rows with the entry \<open>a * i + b * j\<close> in row \<open>i\<close> and column
  \<open>j\<close>: an image large enough for patches of 192 pixels, for the examples.
\<close>

definition ramp :: "nat \<Rightarrow> nat \<Rightarrow> nat \<Rightarrow> real list list" where
  "ramp n a b = map (\<lambda>i. map (\<lambda>j. real (a * i + b * j)) [0..<n]) [0..<n]"

section \<open>Properties of next32\<close>

lemma next32_fixed: "n mod 32 = 0 \<Longrightarrow> next32 n = n"
  by (subst next32.simps) simp

lemma next32_step: "n mod 32 \<noteq> 0 \<Longrightarrow> next32 n = next32 (n + 1)"
  by (subst next32.simps) simp

lemma neg_succ_mod32:
  assumes "(n::int) mod 32 \<noteq> 0"
  shows "(- (n + 1)) mod 32 = (- n) mod 32 - 1"
proof -
  from assms have nz: "(- n) mod 32 \<noteq> 0" by (simp add: mod_eq_0_iff_dvd)
  have "0 \<le> (- n) mod 32" "(- n) mod 32 < 32" by simp_all
  with nz have b: "0 \<le> (- n) mod 32 - 1" "(- n) mod 32 - 1 < 32" by linarith+
  have "(- n - 1) mod 32 = ((- n) mod 32 - 1) mod 32" by (simp add: mod_diff_left_eq)
  also have "\<dots> = (- n) mod 32 - 1" using b by (rule mod_pos_pos_trivial)
  finally show ?thesis by simp
qed

lemma next32_closed_form: "next32 n = n + (- n) mod 32"
proof (induction n rule: next32.induct)
  case (1 n)
  show ?case
  proof (cases "n mod 32 = 0")
    case True
    then have "(- n) mod 32 = 0" by (simp add: mod_eq_0_iff_dvd)
    with True show ?thesis by (simp add: next32_fixed)
  next
    case False
    then have "next32 n = next32 (n + 1)" by (rule next32_step)
    also have "\<dots> = (n + 1) + (- (n + 1)) mod 32" using 1 False by simp
    also have "\<dots> = n + (- n) mod 32" using neg_succ_mod32 [OF False] by simp
    finally show ?thesis .
  qed
qed

lemma next32_ge: "n \<le> next32 n"
  by (simp add: next32_closed_form)

lemma next32_dvd: "32 dvd next32 n"
proof -
  have "(n + (- n) mod 32) mod 32 = (n + (- n)) mod 32" by (rule mod_add_right_eq)
  then show ?thesis by (simp add: next32_closed_form mod_eq_0_iff_dvd)
qed

lemma next32_least:
  assumes "n \<le> m" "32 dvd m"
  shows "next32 n \<le> m"
proof -
  from assms(2) obtain k where k: "m = 32 * k" ..
  from next32_dvd [of n] obtain j where j: "next32 n = 32 * j" ..
  have "next32 n < n + 32" by (simp add: next32_closed_form)
  with assms(1) have "next32 n < m + 32" by linarith
  with k j have "j < k + 1" by simp
  with k j show ?thesis by simp
qed

lemma next32_mono: "n \<le> n' \<Longrightarrow> next32 n \<le> next32 n'"
  by (rule next32_least) (use next32_ge [of n'] next32_dvd [of n'] in auto)

text \<open>
  C9. For every integer \<open>n \<ge> 0\<close> the loop of \<open>next32\<close> terminates (the function is
  total by its termination proof) and returns the smallest \<open>m \<ge> n\<close> divisible by 32; a
  multiple of 32 is returned unchanged, and the function is monotone.
\<close>

theorem next32_smallest_multiple:
  "0 \<le> n \<Longrightarrow>
     n \<le> next32 n \<and> 32 dvd next32 n
     \<and> (\<forall>m. n \<le> m \<and> 32 dvd m \<longrightarrow> next32 n \<le> m)
     \<and> (32 dvd n \<longrightarrow> next32 n = n)
     \<and> (\<forall>n'. n \<le> n' \<longrightarrow> next32 n \<le> next32 n')"
  using next32_ge [of n] next32_dvd [of n] next32_least [of n] next32_mono [of n]
    next32_fixed [of n]
  by (simp add: mod_eq_0_iff_dvd)

theorem next32_smallest_multiple_witness:
  "(0::int) \<le> 33 \<and> 33 \<le> next32 33 \<and> 32 dvd next32 33 \<and> next32 33 \<le> 64
     \<and> next32 33 \<le> next32 40 \<and> next32 33 = 64 \<and> next32 64 = 64"
  using next32_smallest_multiple [of 33]
  by (simp add: next32_closed_form)

section \<open>Binary search on a sorted axis\<close>

lemma binsearch_correct:
  "sorted a \<Longrightarrow> hi \<le> length a \<Longrightarrow> lo \<le> hi \<Longrightarrow>
    \<forall>i<lo. a ! i < v \<Longrightarrow> \<forall>i. hi \<le> i \<and> i < length a \<longrightarrow> v \<le> a ! i \<Longrightarrow>
   lo \<le> binsearch a v lo hi \<and> binsearch a v lo hi \<le> hi
    \<and> (\<forall>i<binsearch a v lo hi. a ! i < v)
    \<and> (\<forall>i. binsearch a v lo hi \<le> i \<and> i < length a \<longrightarrow> v \<le> a ! i)"
proof (induction a v lo hi rule: binsearch.induct)
  case (1 a v lo hi)
  note srt = \<open>sorted a\<close> and hi = \<open>hi \<le> length a\<close> and lohi = \<open>lo \<le> hi\<close>
    and below = \<open>\<forall>i<lo. a ! i < v\<close> and above = \<open>\<forall>i. hi \<le> i \<and> i < length a \<longrightarrow> v \<le> a ! i\<close>
  show ?case
  proof (cases "lo < hi")
    case False
    with lohi have e: "lo = hi" by simp
    have "binsearch a v lo hi = lo" using False by (subst binsearch.simps) simp
    with e below above show ?thesis by simp
  next
    case True
    define mid where "mid = lo + (hi - lo) div 2"
    from True have mid: "lo \<le> mid" "mid < hi" unfolding mid_def by linarith+
    show ?thesis
    proof (cases "a ! mid < v")
      case lt: True
      have eq: "binsearch a v lo hi = binsearch a v (mid + 1) hi"
        using True lt unfolding mid_def by (subst binsearch.simps) (simp add: Let_def)
      have below': "\<forall>i<mid + 1. a ! i < v"
      proof (intro allI impI)
        fix i assume "i < mid + 1"
        then have "i \<le> mid" by simp
        moreover from mid hi have "mid < length a" by simp
        ultimately have "a ! i \<le> a ! mid" using srt by (simp add: sorted_nth_mono)
        with lt show "a ! i < v" by linarith
      qed
      from mid have m1: "mid + 1 \<le> hi" by simp
      note IH = "1.IH"(1) [OF True mid_def lt srt hi m1 below' above]
      from IH eq mid show ?thesis by simp
    next
      case ge: False
      have eq: "binsearch a v lo hi = binsearch a v lo mid"
        using True ge unfolding mid_def by (subst binsearch.simps) (simp add: Let_def)
      have above': "\<forall>i. mid \<le> i \<and> i < length a \<longrightarrow> v \<le> a ! i"
      proof (intro allI impI)
        fix i assume "mid \<le> i \<and> i < length a"
        with srt have "a ! mid \<le> a ! i" by (simp add: sorted_nth_mono)
        with ge show "v \<le> a ! i" by linarith
      qed
      from mid hi have m2: "mid \<le> length a" by simp
      note IH = "1.IH"(2) [OF True mid_def ge srt m2 mid(1) below above']
      from IH eq mid show ?thesis by simp
    qed
  qed
qed

lemma searchsorted_sorted:
  assumes "sorted a"
  shows "searchsorted a v \<le> length a
    \<and> (\<forall>i<searchsorted a v. a ! i < v)
    \<and> (\<forall>i. searchsorted a v \<le> i \<and> i < length a \<longrightarrow> v \<le> a ! i)"
  using binsearch_correct [OF assms, of "length a" 0 v] by (simp add: searchsorted_def)

section \<open>The frequency field\<close>

lemma length_rfft_axis [simp]: "length (rfft_axis n d) = n div 2 + 1"
  by (simp add: rfft_axis_def)

lemma nth_rfft_axis: "j \<le> n div 2 \<Longrightarrow> rfft_axis n d ! j = real j / (real n * d)"
  unfolding rfft_axis_def by (subst nth_map) (simp_all del: upt_Suc)

lemma length_fft_index [simp]: "0 < n \<Longrightarrow> length (fft_index n) = n"
proof -
  assume "0 < n"
  then have "(n - 1) div 2 + 1 + n div 2 = n" by linarith
  then show ?thesis by (simp add: fft_index_def)
qed

lemma length_fft_axis [simp]: "0 < n \<Longrightarrow> length (fft_axis n d) = n"
  by (simp add: fft_axis_def)

lemma nth_fft_axis:
  assumes "i < n div 2"
  shows "fft_axis n d ! i = real i / (real n * d)"
proof -
  from assms have i: "i < (n - 1) div 2 + 1" and n: "0 < n" by linarith+
  then have "i < length (fft_index n)" by simp
  moreover have "fft_index n ! i = int i"
    unfolding fft_index_def using i by (simp add: nth_append del: upt_Suc)
  ultimately show ?thesis by (simp add: fft_axis_def)
qed

lemma length_radial [simp]: "length (radial xs ys) = length ys"
  by (simp add: radial_def)

lemma nth_radial: "i < length ys \<Longrightarrow> radial xs ys ! i = map (\<lambda>x. sqrt (x\<^sup>2 + (ys ! i)\<^sup>2)) xs"
  by (simp add: radial_def)

lemma get_mic_freqs_Inr:
  assumes "0 < nrows mic" "0 < ncols mic" "apix \<noteq> 0"
  shows "get_mic_freqs mic apix =
    Inr (radial (rfft_axis (ncols mic) apix) (fft_axis (nrows mic) apix))"
  using assms by (simp add: get_mic_freqs_def rfftfreq_def fftfreq_def Let_def)

lemma get_mic_freqs_Inl:
  assumes "nrows mic = 0 \<or> ncols mic = 0 \<or> apix = 0"
  shows "get_mic_freqs mic apix = Inl ZeroDivisionError"
  using assms by (auto simp add: get_mic_freqs_def rfftfreq_def fftfreq_def Let_def)

lemma get_mic_freqs_shape:
  assumes "get_mic_freqs mic apix = Inr F"
  shows "0 < nrows mic" "0 < ncols mic" "apix \<noteq> 0"
    "F = radial (rfft_axis (ncols mic) apix) (fft_axis (nrows mic) apix)"
    "nrows F = nrows mic"
    "\<forall>i<nrows mic. length (F ! i) = ncols mic div 2 + 1"
    "ncols F = ncols mic div 2 + 1" "rect F"
proof -
  have "\<not> (nrows mic = 0 \<or> ncols mic = 0 \<or> apix = 0)"
  proof
    assume "nrows mic = 0 \<or> ncols mic = 0 \<or> apix = 0"
    from get_mic_freqs_Inl [OF this] assms show False by simp
  qed
  then show pos: "0 < nrows mic" "0 < ncols mic" "apix \<noteq> 0" by simp_all
  show F: "F = radial (rfft_axis (ncols mic) apix) (fft_axis (nrows mic) apix)"
    using assms get_mic_freqs_Inr [OF pos] by simp
  show n: "nrows F = nrows mic" using pos by (simp add: F nrows_def)
  show r: "\<forall>i<nrows mic. length (F ! i) = ncols mic div 2 + 1"
    using pos by (simp add: F nth_radial)
  from n pos(1) obtain r0 rs where "F = r0 # rs" by (cases F) (auto simp: nrows_def)
  with r pos(1) show c: "ncols F = ncols mic div 2 + 1" by (auto simp: ncols_def)
  show "rect F" unfolding rect_def list_all_length c using r n by (simp add: nrows_def)
qed

lemma get_mic_freqs_row0:
  assumes "get_mic_freqs mic apix = Inr F" "0 < apix" "j \<le> ncols mic div 2"
  shows "F ! 0 ! j = real j / (real (ncols mic) * apix)"
proof -
  note s = get_mic_freqs_shape [OF assms(1)]
  have "\<bar>real j / (real (ncols mic) * apix)\<bar> = real j / (real (ncols mic) * apix)"
    using assms(2) by (intro abs_of_nonneg) simp
  moreover have "fft_axis (nrows mic) apix ! 0 = 0"
    using s(1) by (simp add: fft_axis_def fft_index_def nth_append del: upt_Suc)
  ultimately show ?thesis using assms(3) s(1)
    by (simp add: s(4) nth_radial nth_rfft_axis del: abs_divide)
qed

lemma get_mic_freqs_col0:
  assumes "get_mic_freqs mic apix = Inr F" "0 < apix" "i < nrows mic div 2"
  shows "F ! i ! 0 = real i / (real (nrows mic) * apix)"
proof -
  note s = get_mic_freqs_shape [OF assms(1)]
  have "\<bar>real i / (real (nrows mic) * apix)\<bar> = real i / (real (nrows mic) * apix)"
    using assms(2) by (intro abs_of_nonneg) simp
  moreover have "rfft_axis (ncols mic) apix ! 0 = 0" by (simp add: nth_rfft_axis)
  moreover have "i < nrows mic" using assms(3) by linarith
  ultimately show ?thesis using assms(3) s(1)
    by (simp add: s(4) nth_radial nth_fft_axis del: abs_divide)
qed

section \<open>Cropping the half-spectrum\<close>

lemma get_mic_freqs_row0_sorted:
  assumes "get_mic_freqs mic apix = Inr F" "0 < apix"
  shows "sorted (F ! 0)"
proof -
  note s = get_mic_freqs_shape [OF assms(1)]
  have len: "length (F ! 0) = ncols mic div 2 + 1" using s(1,6) by simp
  show ?thesis
  proof (unfold sorted_iff_nth_mono, intro allI impI)
    fix i j assume ij: "i \<le> j" "j < length (F ! 0)"
    with len have "i \<le> ncols mic div 2" "j \<le> ncols mic div 2" by simp_all
    then have "F ! 0 ! i = real i / (real (ncols mic) * apix)"
      "F ! 0 ! j = real j / (real (ncols mic) * apix)"
      using get_mic_freqs_row0 [OF assms] by simp_all
    moreover have "real i / (real (ncols mic) * apix) \<le> real j / (real (ncols mic) * apix)"
      using ij(1) assms(2) by (intro divide_right_mono) simp_all
    ultimately show "F ! 0 ! i \<le> F ! 0 ! j" by simp
  qed
qed

lemma get_mic_freqs_col0_nth:
  assumes "get_mic_freqs mic apix = Inr F" "i < nrows mic div 2"
  shows "map (\<lambda>r. r ! 0) (take (nrows mic div 2) F) ! i = F ! i ! 0"
proof -
  note s = get_mic_freqs_shape [OF assms(1)]
  have "nrows mic div 2 \<le> length F" using s(5) by (simp add: nrows_def)
  with assms(2) show ?thesis by simp
qed

lemma get_mic_freqs_col0_length:
  assumes "get_mic_freqs mic apix = Inr F"
  shows "length (map (\<lambda>r. r ! 0) (take (nrows mic div 2) F)) = nrows mic div 2"
  using get_mic_freqs_shape(5) [OF assms] by (simp add: nrows_def)

lemma get_mic_freqs_col0_sorted:
  assumes "get_mic_freqs mic apix = Inr F" "0 < apix"
  shows "sorted (map (\<lambda>r. r ! 0) (take (nrows mic div 2) F))"
proof (unfold sorted_iff_nth_mono get_mic_freqs_col0_length [OF assms(1)], intro allI impI)
  fix i j assume ij: "i \<le> j" "j < nrows mic div 2"
  then have i: "i < nrows mic div 2" by simp
  have "real i / (real (nrows mic) * apix) \<le> real j / (real (nrows mic) * apix)"
    using ij(1) assms(2) by (intro divide_right_mono) simp_all
  then show "map (\<lambda>r. r ! 0) (take (nrows mic div 2) F) ! i
      \<le> map (\<lambda>r. r ! 0) (take (nrows mic div 2) F) ! j"
    by (simp only: get_mic_freqs_col0_nth [OF assms(1) i] get_mic_freqs_col0_nth [OF assms(1) ij(2)]
        get_mic_freqs_col0 [OF assms i] get_mic_freqs_col0 [OF assms ij(2)])
qed

lemma fourier_crop_Inr:
  assumes "mic_freqs \<noteq> []" "ncols mic_freqs \<noteq> 0"
  shows "fourier_crop mic_ft mic_freqs cutoff =
    Inr (map (take (searchsorted (mic_freqs ! 0) cutoff))
           (take (searchsorted (map (\<lambda>r. r ! 0) (take (nrows mic_ft div 2) mic_freqs)) cutoff) mic_ft)
         @ map (take (searchsorted (mic_freqs ! 0) cutoff))
           (drop (nrows mic_ft - searchsorted (map (\<lambda>r. r ! 0) (take (nrows mic_ft div 2) mic_freqs)) cutoff) mic_ft))"
  using assms by (cases mic_freqs) (simp_all add: fourier_crop_def Let_def)

lemma fourier_crop_field:
  assumes "get_mic_freqs mic apix = Inr F" and "0 < apix"
    and "rect mic_ft" and "nrows mic_ft = nrows mic" and "ncols mic_ft = ncols mic div 2 + 1"
  shows "\<exists>c_h c_v.
      fourier_crop mic_ft F cutoff
        = Inr (map (take c_h) (take c_v mic_ft) @ map (take c_h) (drop (nrows mic - c_v) mic_ft))
      \<and> c_h \<le> ncols mic_ft
      \<and> (\<forall>j<c_h. F ! 0 ! j < cutoff)
      \<and> (c_h < ncols mic_ft \<longrightarrow> cutoff \<le> F ! 0 ! c_h)
      \<and> c_v \<le> nrows mic div 2
      \<and> (\<forall>i<c_v. F ! i ! 0 < cutoff)
      \<and> (c_v < nrows mic div 2 \<longrightarrow> cutoff \<le> F ! c_v ! 0)
      \<and> (\<forall>out. fourier_crop mic_ft F cutoff = Inr out \<longrightarrow>
            nrows out = 2 * c_v \<and> even (nrows out) \<and> (\<forall>row \<in> set out. length row = c_h))"
proof -
  note s = get_mic_freqs_shape [OF assms(1)]
  define f_v where "f_v = map (\<lambda>r. r ! 0) (take (nrows mic div 2) F)"
  define c_h where "c_h = searchsorted (F ! 0) cutoff"
  define c_v where "c_v = searchsorted f_v cutoff"
  have len_h: "length (F ! 0) = ncols mic_ft" using s(1,6) assms(5) by simp
  have len_v: "length f_v = nrows mic div 2"
    unfolding f_v_def by (rule get_mic_freqs_col0_length [OF assms(1)])
  note h = searchsorted_sorted [OF get_mic_freqs_row0_sorted [OF assms(1,2)], of cutoff,
      folded c_h_def, unfolded len_h]
  note v = searchsorted_sorted [OF get_mic_freqs_col0_sorted [OF assms(1,2)], of cutoff,
      folded f_v_def, folded c_v_def, unfolded len_v]
  have F_ne: "F \<noteq> []" "ncols F \<noteq> 0" using s(1,5,7) by (auto simp: nrows_def)
  have crop: "fourier_crop mic_ft F cutoff
      = Inr (map (take c_h) (take c_v mic_ft) @ map (take c_h) (drop (nrows mic - c_v) mic_ft))"
    unfolding fourier_crop_Inr [OF F_ne] c_h_def c_v_def f_v_def assms(4) ..
  have v_nth: "\<And>i. i < nrows mic div 2 \<Longrightarrow> f_v ! i = F ! i ! 0"
    unfolding f_v_def by (rule get_mic_freqs_col0_nth [OF assms(1)])
  have cv_le: "c_v \<le> nrows mic div 2" using v by simp
  have below_v: "\<forall>i<c_v. F ! i ! 0 < cutoff"
  proof (intro allI impI)
    fix i assume i: "i < c_v"
    with cv_le have "i < nrows mic div 2" by simp
    from v i have "f_v ! i < cutoff" by blast
    with v_nth [OF \<open>i < nrows mic div 2\<close>] show "F ! i ! 0 < cutoff" by simp
  qed
  have at_v: "c_v < nrows mic div 2 \<longrightarrow> cutoff \<le> F ! c_v ! 0"
  proof
    assume lt: "c_v < nrows mic div 2"
    from v lt have "cutoff \<le> f_v ! c_v" by blast
    with v_nth [OF lt] show "cutoff \<le> F ! c_v ! 0" by simp
  qed
  have rows: "length mic_ft = nrows mic" using assms(4) by (simp add: nrows_def)
  have cv_n: "c_v \<le> nrows mic" using cv_le by linarith
  have n_out: "length (map (take c_h) (take c_v mic_ft) @ map (take c_h) (drop (nrows mic - c_v) mic_ft))
      = 2 * c_v"
    using cv_n rows by simp
  have row_len: "\<forall>row \<in> set (map (take c_h) (take c_v mic_ft) @ map (take c_h) (drop (nrows mic - c_v) mic_ft)).
      length row = c_h"
  proof
    fix row
    assume "row \<in> set (map (take c_h) (take c_v mic_ft) @ map (take c_h) (drop (nrows mic - c_v) mic_ft))"
    then obtain r where r: "r \<in> set mic_ft" "row = take c_h r"
      by (auto dest: in_set_takeD in_set_dropD)
    from r(1) assms(3) have "length r = ncols mic_ft" by (simp add: rect_def list_all_iff)
    with r(2) h show "length row = c_h" by simp
  qed
  have out: "\<forall>out. fourier_crop mic_ft F cutoff = Inr out \<longrightarrow>
      nrows out = 2 * c_v \<and> even (nrows out) \<and> (\<forall>row \<in> set out. length row = c_h)"
  proof (intro allI impI)
    fix out assume "fourier_crop mic_ft F cutoff = Inr out"
    with crop have o: "out = map (take c_h) (take c_v mic_ft) @ map (take c_h) (drop (nrows mic - c_v) mic_ft)"
      by simp
    have "length out = 2 * c_v" unfolding o by (rule n_out)
    then have "nrows out = 2 * c_v" by (simp add: nrows_def)
    moreover have "\<forall>row \<in> set out. length row = c_h" unfolding o by (rule row_len)
    ultimately show "nrows out = 2 * c_v \<and> even (nrows out) \<and> (\<forall>row \<in> set out. length row = c_h)"
      by simp
  qed
  from h have h1: "c_h \<le> ncols mic_ft" and h2: "\<forall>j<c_h. F ! 0 ! j < cutoff"
    and h3: "c_h < ncols mic_ft \<longrightarrow> cutoff \<le> F ! 0 ! c_h" by blast+
  from crop h1 h2 h3 cv_le below_v at_v out show ?thesis by blast
qed

section \<open>Shapes through the transform and the filter\<close>

lemma rect_length_concat: "rect a \<Longrightarrow> length (concat a) = nrows a * ncols a"
proof -
  assume r: "rect a"
  have "\<And>c. list_all (\<lambda>r. length r = c) a \<Longrightarrow> length (concat a) = length a * c"
    by (induction a) simp_all
  from this [OF r [unfolded rect_def]] show ?thesis by (simp add: nrows_def)
qed

lemma array_truth_many: "2 \<le> length (concat a) \<Longrightarrow> array_truth a = Inl ValueError"
  unfolding array_truth_def by (cases "concat a" rule: list.exhaust [case_product list.exhaust, of _ "tl (concat a)"]) (auto split: list.splits)

lemma rect_nth: "rect a \<Longrightarrow> i < nrows a \<Longrightarrow> length (a ! i) = ncols a"
  by (simp add: rect_def list_all_length nrows_def)

lemma rectI: "(\<And>i. i < length a \<Longrightarrow> length (a ! i) = c) \<Longrightarrow> rect a \<and> (a \<noteq> [] \<longrightarrow> ncols a = c)"
proof -
  assume h: "\<And>i. i < length a \<Longrightarrow> length (a ! i) = c"
  show ?thesis
  proof (cases a)
    case Nil
    then show ?thesis by (simp add: rect_def)
  next
    case (Cons r rs)
    with h [of 0] have c: "ncols a = c" by (simp add: ncols_def)
    with h Cons show ?thesis by (simp add: rect_def list_all_length)
  qed
qed

lemma broadcast_to_same:
  assumes "rect a" "nrows a = r" "ncols a = c"
  shows "broadcast_to r c a = Inr a"
proof -
  have "map (\<lambda>i. map (\<lambda>j. a ! (if nrows a = 1 then 0 else i) ! (if ncols a = 1 then 0 else j))
                  [0..<c]) [0..<r] = a"
  proof (rule nth_equalityI)
    show "length (map (\<lambda>i. map (\<lambda>j. a ! (if nrows a = 1 then 0 else i) ! (if ncols a = 1 then 0 else j))
                  [0..<c]) [0..<r]) = length a"
      using assms(2) by (simp add: nrows_def)
  next
    fix i
    assume "i < length (map (\<lambda>i. map (\<lambda>j. a ! (if nrows a = 1 then 0 else i) ! (if ncols a = 1 then 0 else j))
                  [0..<c]) [0..<r])"
    then have i: "i < r" by simp
    then have i0: "nrows a = 1 \<longrightarrow> i = 0" using assms(2) by simp
    have len: "length (a ! i) = c" using rect_nth [OF assms(1)] i assms(2,3) by simp
    have "map (\<lambda>j. a ! i ! (if ncols a = 1 then 0 else j)) [0..<c] = a ! i"
    proof (rule nth_equalityI)
      show "length (map (\<lambda>j. a ! i ! (if ncols a = 1 then 0 else j)) [0..<c]) = length (a ! i)"
        using len by simp
    next
      fix j assume "j < length (map (\<lambda>j. a ! i ! (if ncols a = 1 then 0 else j)) [0..<c])"
      then have j: "j < c" by simp
      then have "ncols a = 1 \<longrightarrow> j = 0" using assms(3) by simp
      with j show "map (\<lambda>j. a ! i ! (if ncols a = 1 then 0 else j)) [0..<c] ! j = a ! i ! j"
        by auto
    qed
    with i i0 show "map (\<lambda>i. map (\<lambda>j. a ! (if nrows a = 1 then 0 else i) ! (if ncols a = 1 then 0 else j))
                  [0..<c]) [0..<r] ! i = a ! i"
      by auto
  qed
  with assms show ?thesis by (simp add: broadcast_to_def)
qed

lemma rfft2_shape:
  assumes "0 < nrows mic" "0 < ncols mic"
  shows "\<exists>S. rfft2 mic = Inr S \<and> rect S \<and> nrows S = nrows mic \<and> ncols S = ncols mic div 2 + 1"
proof -
  define S where "S = map (\<lambda>k. map (\<lambda>l.
                 (\<Sum>m<nrows mic. \<Sum>n<ncols mic. complex_of_real (mic ! m ! n) * cnj (twiddle (nrows mic) k m) * cnj (twiddle (ncols mic) l n)))
               [0..<ncols mic div 2 + 1]) [0..<nrows mic]"
  have r: "rfft2 mic = Inr S" using assms by (simp add: rfft2_def Let_def S_def)
  have len: "length S = nrows mic" by (simp add: S_def)
  have "\<And>i. i < length S \<Longrightarrow> length (S ! i) = ncols mic div 2 + 1"
    unfolding len by (simp add: S_def del: upt_Suc)
  from rectI [OF this] len assms(1) have "rect S" "ncols S = ncols mic div 2 + 1" by auto
  with r len show ?thesis by (simp add: nrows_def)
qed

lemma low_pass_same_shape:
  assumes "rect S" "rect F" "nrows F = nrows S" "ncols F = ncols S"
  shows "low_pass S F cutoff bwo
      = Inr (map2 (map2 (\<lambda>z x. z * complex_of_real (butterworth x cutoff bwo))) S F)"
proof -
  define G where "G = map (map (\<lambda>x. butterworth x cutoff bwo)) F"
  have "\<And>i. i < length G \<Longrightarrow> length (G ! i) = ncols F"
    using rect_nth [OF assms(2)] by (simp add: G_def nrows_def)
  from rectI [OF this] have G: "rect G" "G \<noteq> [] \<longrightarrow> ncols G = ncols F" by simp_all
  have nG: "nrows G = nrows F" by (simp add: G_def nrows_def)
  have "ncols G = ncols F" by (cases F) (simp_all add: G_def ncols_def)
  with G nG assms have b: "broadcast_to (nrows S) (ncols S) G = Inr G"
    by (intro broadcast_to_same) simp_all
  have "map2 (map2 (\<lambda>z x. z * complex_of_real x)) S G
      = map2 (map2 (\<lambda>z x. z * complex_of_real (butterworth x cutoff bwo))) S F"
    unfolding G_def by (simp add: zip_map2 case_prod_unfold comp_def)
  with b show ?thesis by (simp add: low_pass_def G_def)
qed

section \<open>The structure of a call of bin_mic\<close>

lemma irfft2_Inl: "nrows A = 0 \<or> ncols A \<le> 1 \<Longrightarrow> irfft2 A = Inl ValueError"
  by (auto simp add: irfft2_def Let_def)

lemma irfft2_Inr:
  assumes "0 < nrows A" "2 \<le> ncols A"
  shows "\<exists>out. irfft2 A = Inr out \<and> nrows out = nrows A
    \<and> (\<forall>row \<in> set out. length row = 2 * (ncols A - 1))"
  using assms by (simp add: irfft2_def Let_def nrows_def)

lemma crop_shape:
  assumes "rect S" "c_h \<le> ncols S" "c_v \<le> nrows S"
  shows "nrows (map (take c_h) (take c_v S) @ map (take c_h) (drop (nrows S - c_v) S)) = 2 * c_v"
    and "0 < c_v \<Longrightarrow> ncols (map (take c_h) (take c_v S) @ map (take c_h) (drop (nrows S - c_v) S)) = c_h"
proof -
  show "nrows (map (take c_h) (take c_v S) @ map (take c_h) (drop (nrows S - c_v) S)) = 2 * c_v"
    using assms(3) by (simp add: nrows_def)
  assume pos: "0 < c_v"
  with assms(3) obtain r rs where S: "S = r # rs" by (cases S) (auto simp: nrows_def)
  from pos obtain k where k: "c_v = Suc k" by (cases c_v) auto
  from S assms(2) have "c_h \<le> length r" by (simp add: ncols_def)
  then show "ncols (map (take c_h) (take c_v S) @ map (take c_h) (drop (nrows S - c_v) S)) = c_h"
    unfolding S k by (simp add: ncols_def)
qed

lemma bin_mic_field:
  assumes "choose_freqs mic apix mf = Inr F" and "get_mic_freqs mic apix = Inr F" and "0 < apix"
  shows "\<exists>S c_h c_v.
      rect S \<and> nrows S = nrows mic \<and> ncols S = ncols mic div 2 + 1
      \<and> bin_mic mic apix cutoff mf lp bwo
          = irfft2 (map (take c_h) (take c_v S) @ map (take c_h) (drop (nrows S - c_v) S))
      \<and> c_h \<le> ncols S
      \<and> (\<forall>j<c_h. F ! 0 ! j < cutoff)
      \<and> (c_h < ncols S \<longrightarrow> cutoff \<le> F ! 0 ! c_h)
      \<and> c_v \<le> nrows mic div 2
      \<and> (\<forall>i<c_v. F ! i ! 0 < cutoff)
      \<and> (c_v < nrows mic div 2 \<longrightarrow> cutoff \<le> F ! c_v ! 0)"
proof -
  note s = get_mic_freqs_shape [OF assms(2)]
  from rfft2_shape [OF s(1,2)] obtain S0 where
    S0: "rfft2 mic = Inr S0" "rect S0" "nrows S0 = nrows mic" "ncols S0 = ncols mic div 2 + 1"
    by blast
  define S where "S = (if lp then map2 (map2 (\<lambda>z x. z * complex_of_real (butterworth x cutoff bwo))) S0 F else S0)"
  have lp: "(if lp then low_pass S0 F cutoff bwo else Inr S0) = Inr S"
    using low_pass_same_shape [OF S0(2) s(8), of cutoff bwo] s(5,7) S0(3,4) by (simp add: S_def)
  have lenS: "length S = nrows mic"
    using S0(3) s(5) by (simp add: S_def nrows_def)
  have rowS: "\<And>i. i < length S \<Longrightarrow> length (S ! i) = ncols mic div 2 + 1"
  proof -
    fix i assume "i < length S"
    with lenS have i: "i < nrows mic" by simp
    with rect_nth [OF S0(2), of i] rect_nth [OF s(8), of i] S0(3,4) s(5,7)
    have "length (S0 ! i) = ncols mic div 2 + 1" "length (F ! i) = ncols mic div 2 + 1"
      by simp_all
    moreover from i S0(3) s(5) have "i < length S0" "i < length F" by (simp_all add: nrows_def)
    ultimately show "length (S ! i) = ncols mic div 2 + 1" by (simp add: S_def)
  qed
  from rectI [OF rowS] lenS s(1) have S: "rect S" "nrows S = nrows mic" "ncols S = ncols mic div 2 + 1"
    by (auto simp: nrows_def)
  from fourier_crop_field [OF assms(2,3) S, of cutoff] obtain c_h c_v where
    c: "fourier_crop S F cutoff
        = Inr (map (take c_h) (take c_v S) @ map (take c_h) (drop (nrows mic - c_v) S))"
      "c_h \<le> ncols S" "\<forall>j<c_h. F ! 0 ! j < cutoff" "c_h < ncols S \<longrightarrow> cutoff \<le> F ! 0 ! c_h"
      "c_v \<le> nrows mic div 2" "\<forall>i<c_v. F ! i ! 0 < cutoff"
      "c_v < nrows mic div 2 \<longrightarrow> cutoff \<le> F ! c_v ! 0"
    by blast
  have "bin_mic mic apix cutoff mf lp bwo
      = irfft2 (map (take c_h) (take c_v S) @ map (take c_h) (drop (nrows S - c_v) S))"
    unfolding bin_mic_def assms(1) S0(1) by (simp add: lp c(1) S(2))
  with S c(2-) show ?thesis by blast
qed

lemma choose_freqs_None: "choose_freqs mic apix None = get_mic_freqs mic apix"
  by (simp add: choose_freqs_def)

lemma bin_mic_succeeds:
  assumes "choose_freqs mic apix mf = Inr F" and "get_mic_freqs mic apix = Inr F" and "0 < apix"
    and "2 \<le> nrows mic" and "2 \<le> ncols mic" and "1 / (real (ncols mic) * apix) < cutoff"
  shows "\<exists>out. bin_mic mic apix cutoff mf lp bwo = Inr out"
proof -
  from bin_mic_field [OF assms(1,2,3), of cutoff lp bwo] obtain S c_h c_v where
    S: "rect S" "nrows S = nrows mic" "ncols S = ncols mic div 2 + 1"
    and b: "bin_mic mic apix cutoff mf lp bwo
          = irfft2 (map (take c_h) (take c_v S) @ map (take c_h) (drop (nrows S - c_v) S))"
    and h: "c_h \<le> ncols S" "c_h < ncols S \<longrightarrow> cutoff \<le> F ! 0 ! c_h"
    and v: "c_v \<le> nrows mic div 2" "c_v < nrows mic div 2 \<longrightarrow> cutoff \<le> F ! c_v ! 0"
    by blast
  have cpos: "0 < cutoff"
  proof -
    have "0 \<le> 1 / (real (ncols mic) * apix)" using assms(3) by simp
    with assms(6) show ?thesis by linarith
  qed
  have cv: "0 < c_v"
  proof (rule ccontr)
    assume "\<not> 0 < c_v"
    then have z: "c_v = 0" by simp
    with assms(4) have lt: "c_v < nrows mic div 2" by linarith
    with v(2) have "cutoff \<le> F ! c_v ! 0" by simp
    moreover have "F ! c_v ! 0 = 0"
      using get_mic_freqs_col0 [OF assms(2,3) lt] z by simp
    ultimately show False using cpos by simp
  qed
  have ch: "2 \<le> c_h"
  proof (rule ccontr)
    assume "\<not> 2 \<le> c_h"
    then have lt: "c_h < 2" by simp
    with assms(5) S(3) have "c_h < ncols S" "c_h \<le> ncols mic div 2" by linarith+
    with h(2) get_mic_freqs_row0 [OF assms(2,3), of c_h]
    have "cutoff \<le> real c_h / (real (ncols mic) * apix)" by simp
    moreover have "real c_h / (real (ncols mic) * apix) \<le> 1 / (real (ncols mic) * apix)"
      using lt assms(3) by (intro divide_right_mono) simp_all
    ultimately show False using assms(6) by linarith
  qed
  from v(1) S(2) have cvn: "c_v \<le> nrows S" by linarith
  have "0 < nrows (map (take c_h) (take c_v S) @ map (take c_h) (drop (nrows S - c_v) S))"
    using crop_shape(1) [OF S(1) h(1) cvn] cv by simp
  moreover have "2 \<le> ncols (map (take c_h) (take c_v S) @ map (take c_h) (drop (nrows S - c_v) S))"
    using crop_shape(2) [OF S(1) h(1) cvn cv] ch by simp
  ultimately show ?thesis using irfft2_Inr b by metis
qed

lemma bin_mic_above_nyquist:
  assumes "get_mic_freqs mic apix = Inr F" and "0 < apix"
    and "2 \<le> nrows mic" and "2 \<le> ncols mic" and "1 / (2 * apix) < cutoff"
  shows "\<exists>out. bin_mic mic apix cutoff None lp bwo = Inr out
    \<and> nrows out = 2 * (nrows mic div 2) \<and> (\<forall>row \<in> set out. length row = 2 * (ncols mic div 2))"
proof -
  have cf: "choose_freqs mic apix None = Inr F" using assms(1) by (simp add: choose_freqs_None)
  from bin_mic_field [OF cf assms(1,2), of cutoff lp bwo] obtain S c_h c_v where
    S: "rect S" "nrows S = nrows mic" "ncols S = ncols mic div 2 + 1"
    and b: "bin_mic mic apix cutoff None lp bwo
          = irfft2 (map (take c_h) (take c_v S) @ map (take c_h) (drop (nrows S - c_v) S))"
    and h: "c_h \<le> ncols S" "c_h < ncols S \<longrightarrow> cutoff \<le> F ! 0 ! c_h"
    and v: "c_v \<le> nrows mic div 2" "c_v < nrows mic div 2 \<longrightarrow> cutoff \<le> F ! c_v ! 0"
    by blast
  have nyq: "\<And>k n. k \<le> n div 2 \<Longrightarrow> 0 < n \<Longrightarrow> real k / (real n * apix) \<le> 1 / (2 * apix)"
  proof -
    fix k n :: nat assume k: "k \<le> n div 2" "0 < n"
    then have "2 * k \<le> n" by linarith
    then have "2 * real k \<le> real n" by (metis of_nat_le_iff of_nat_mult of_nat_numeral)
    then show "real k / (real n * apix) \<le> 1 / (2 * apix)"
      using assms(2) k(2) by (simp add: field_simps)
  qed
  have ch: "c_h = ncols S"
  proof (rule ccontr)
    assume "c_h \<noteq> ncols S"
    with h(1) have lt: "c_h < ncols S" by simp
    with S(3) have le: "c_h \<le> ncols mic div 2" by simp
    from lt h(2) get_mic_freqs_row0 [OF assms(1,2) le]
    have "cutoff \<le> real c_h / (real (ncols mic) * apix)" by simp
    with nyq [OF le] assms(4,5) show False by simp
  qed
  have cv: "c_v = nrows mic div 2"
  proof (rule ccontr)
    assume "c_v \<noteq> nrows mic div 2"
    with v(1) have lt: "c_v < nrows mic div 2" by simp
    from lt v(2) get_mic_freqs_col0 [OF assms(1,2) lt]
    have "cutoff \<le> real c_v / (real (nrows mic) * apix)" by simp
    with nyq [of c_v "nrows mic"] lt assms(3,5) show False by simp
  qed
  from v(1) S(2) have cvn: "c_v \<le> nrows S" by linarith
  from cv assms(3) have cvpos: "0 < c_v" by linarith
  let ?crop = "map (take c_h) (take c_v S) @ map (take c_h) (drop (nrows S - c_v) S)"
  have n: "nrows ?crop = 2 * (nrows mic div 2)"
    using crop_shape(1) [OF S(1) h(1) cvn] cv by simp
  have c: "ncols ?crop = ncols mic div 2 + 1"
    using crop_shape(2) [OF S(1) h(1) cvn cvpos] ch S(3) by simp
  have "0 < nrows ?crop" "2 \<le> ncols ?crop" using n c assms(3,4) cvpos cv by linarith+
  from irfft2_Inr [OF this] obtain out where
    "irfft2 ?crop = Inr out" "nrows out = nrows ?crop" "\<forall>row \<in> set out. length row = 2 * (ncols ?crop - 1)"
    by blast
  with b n c show ?thesis by simp
qed

lemma bin_mic_nonpositive_cutoff:
  assumes "get_mic_freqs mic apix = Inr F" and "0 < apix" and "cutoff \<le> 0"
  shows "bin_mic mic apix cutoff None lp bwo = irfft2 []" and "irfft2 [] = Inl ValueError"
proof -
  have cf: "choose_freqs mic apix None = Inr F" using assms(1) by (simp add: choose_freqs_None)
  note s = get_mic_freqs_shape [OF assms(1)]
  from bin_mic_field [OF cf assms(1,2), of cutoff lp bwo] obtain S c_h c_v where
    S: "rect S" "nrows S = nrows mic" "ncols S = ncols mic div 2 + 1"
    and b: "bin_mic mic apix cutoff None lp bwo
          = irfft2 (map (take c_h) (take c_v S) @ map (take c_h) (drop (nrows S - c_v) S))"
    and h: "\<forall>j<c_h. F ! 0 ! j < cutoff"
    and v: "\<forall>i<c_v. F ! i ! 0 < cutoff"
    by blast
  have z: "F ! 0 ! 0 = 0" using get_mic_freqs_row0 [OF assms(1,2), of 0] by simp
  have ch: "c_h = 0"
  proof (rule ccontr)
    assume "c_h \<noteq> 0"
    with h have "F ! 0 ! 0 < cutoff" by simp
    with z assms(3) show False by simp
  qed
  have cv: "c_v = 0"
  proof (rule ccontr)
    assume "c_v \<noteq> 0"
    with v have "F ! 0 ! 0 < cutoff" by simp
    with z assms(3) show False by simp
  qed
  show "bin_mic mic apix cutoff None lp bwo = irfft2 []"
    unfolding b ch cv by (simp add: nrows_def)
  show "irfft2 [] = Inl ValueError" by (simp add: irfft2_Inl nrows_def)
qed

lemma bin_mic_precomputed:
  assumes "get_mic_freqs mic apix = Inr F" and "2 \<le> nrows mic * (ncols mic div 2 + 1)"
  shows "bin_mic mic apix cutoff (Some F) lp bwo = Inl ValueError"
proof -
  note s = get_mic_freqs_shape [OF assms(1)]
  have "length (concat F) = nrows mic * (ncols mic div 2 + 1)"
    using rect_length_concat [OF s(8)] s(5,7) by simp
  with assms(2) have "array_truth F = Inl ValueError" by (intro array_truth_many) simp
  then show ?thesis by (simp add: bin_mic_def choose_freqs_def)
qed


lemma rect_take_ncols: "rect S \<Longrightarrow> map (take (ncols S)) xs = xs" if "set xs \<subseteq> set S"
proof -
  assume r: "rect S"
  have "\<And>x. x \<in> set xs \<Longrightarrow> take (ncols S) x = x"
    using that r by (auto simp: rect_def list_all_iff)
  then show ?thesis by (simp add: map_idI)
qed

lemma bin_mic_grid_error:
  assumes "nrows mic = 0 \<or> ncols mic = 0 \<or> apix = 0"
  shows "bin_mic mic apix cutoff None lp bwo = Inl ZeroDivisionError"
  using get_mic_freqs_Inl [OF assms] by (simp add: bin_mic_def choose_freqs_None)

lemma bin_mic_stages:
  assumes "get_mic_freqs mic apix = Inr F"
  shows "\<exists>S S'. rfft2 mic = Inr S
    \<and> low_pass S F cutoff bwo
        = Inr (map2 (map2 (\<lambda>z f. z * complex_of_real (butterworth f cutoff bwo))) S F)
    \<and> (if lp then low_pass S F cutoff bwo else Inr S) = Inr S'
    \<and> rect S' \<and> nrows S' = nrows mic \<and> ncols S' = ncols mic div 2 + 1
    \<and> bin_mic mic apix cutoff None lp bwo
        = (case fourier_crop S' F cutoff of Inl e \<Rightarrow> Inl e | Inr crop \<Rightarrow> irfft2 crop)"
proof -
  note s = get_mic_freqs_shape [OF assms]
  from rfft2_shape [OF s(1,2)] obtain S where
    S: "rfft2 mic = Inr S" "rect S" "nrows S = nrows mic" "ncols S = ncols mic div 2 + 1"
    by blast
  have lpS: "low_pass S F cutoff bwo
        = Inr (map2 (map2 (\<lambda>z f. z * complex_of_real (butterworth f cutoff bwo))) S F)"
    using low_pass_same_shape [OF S(2) s(8), of cutoff bwo] s(5,7) S(3,4) by simp
  define S' where "S' = (if lp then map2 (map2 (\<lambda>z f. z * complex_of_real (butterworth f cutoff bwo))) S F else S)"
  have lp: "(if lp then low_pass S F cutoff bwo else Inr S) = Inr S'"
    using lpS by (simp add: S'_def)
  have lenS: "length S' = nrows mic"
    using S(3) s(5) by (simp add: S'_def nrows_def)
  have rowS: "\<And>i. i < length S' \<Longrightarrow> length (S' ! i) = ncols mic div 2 + 1"
  proof -
    fix i assume "i < length S'"
    with lenS have i: "i < nrows mic" by simp
    with rect_nth [OF S(2), of i] rect_nth [OF s(8), of i] S(3,4) s(5,7)
    have "length (S ! i) = ncols mic div 2 + 1" "length (F ! i) = ncols mic div 2 + 1"
      by simp_all
    moreover from i S(3) s(5) have "i < length S" "i < length F" by (simp_all add: nrows_def)
    ultimately show "length (S' ! i) = ncols mic div 2 + 1" by (simp add: S'_def)
  qed
  from rectI [OF rowS] lenS s(1)
  have S': "rect S'" "nrows S' = nrows mic" "ncols S' = ncols mic div 2 + 1"
    by (auto simp: nrows_def)
  have cf: "choose_freqs mic apix None = Inr F" using assms by (simp add: choose_freqs_None)
  have "bin_mic mic apix cutoff None lp bwo
        = (case fourier_crop S' F cutoff of Inl e \<Rightarrow> Inl e | Inr crop \<Rightarrow> irfft2 crop)"
    unfolding bin_mic_def cf S(1) by (simp add: lp)
  with S(1) lpS lp S' show ?thesis by blast
qed

lemma bin_mic_nonpositive_stages:
  assumes "get_mic_freqs mic apix = Inr F" and "0 < apix" and "cutoff \<le> 0"
  shows "\<exists>S S'. rfft2 mic = Inr S
    \<and> (if lp then low_pass S F cutoff bwo else Inr S) = Inr S'
    \<and> fourier_crop S' F cutoff = Inr []
    \<and> irfft2 [] = Inl ValueError
    \<and> bin_mic mic apix cutoff None lp bwo = Inl ValueError"
proof -
  from bin_mic_stages [OF assms(1), of cutoff bwo lp] obtain S S' where
    S: "rfft2 mic = Inr S" "(if lp then low_pass S F cutoff bwo else Inr S) = Inr S'"
    and S': "rect S'" "nrows S' = nrows mic" "ncols S' = ncols mic div 2 + 1"
    and b: "bin_mic mic apix cutoff None lp bwo
        = (case fourier_crop S' F cutoff of Inl e \<Rightarrow> Inl e | Inr crop \<Rightarrow> irfft2 crop)"
    by blast
  from fourier_crop_field [OF assms(1,2) S', of cutoff] obtain c_h c_v where
    c: "fourier_crop S' F cutoff
        = Inr (map (take c_h) (take c_v S') @ map (take c_h) (drop (nrows mic - c_v) S'))"
    and v: "\<forall>i<c_v. F ! i ! 0 < cutoff"
    by blast
  have z: "F ! 0 ! 0 = 0" using get_mic_freqs_row0 [OF assms(1,2), of 0] by simp
  have cv: "c_v = 0"
  proof (rule ccontr)
    assume "c_v \<noteq> 0"
    with v have "F ! 0 ! 0 < cutoff" by simp
    with z assms(3) show False by simp
  qed
  have e: "fourier_crop S' F cutoff = Inr []"
    unfolding c cv using S'(2) by (simp add: nrows_def)
  have i: "irfft2 [] = Inl ValueError" by (simp add: irfft2_Inl nrows_def)
  from b e i have "bin_mic mic apix cutoff None lp bwo = Inl ValueError" by simp
  with S e i show ?thesis by blast
qed

lemma bin_mic_above_axes:
  assumes "get_mic_freqs mic apix = Inr F" and "0 < apix"
    and "2 \<le> nrows mic" and "2 \<le> ncols mic"
    and "\<forall>j \<le> ncols mic div 2. F ! 0 ! j < cutoff" and "\<forall>i < nrows mic div 2. F ! i ! 0 < cutoff"
  shows "\<exists>S S' out. rfft2 mic = Inr S
    \<and> (if lp then low_pass S F cutoff bwo else Inr S) = Inr S'
    \<and> fourier_crop S' F cutoff
        = Inr (take (nrows mic div 2) S' @ drop (nrows mic - nrows mic div 2) S')
    \<and> bin_mic mic apix cutoff None lp bwo = Inr out
    \<and> nrows out = 2 * (nrows mic div 2)
    \<and> (\<forall>row \<in> set out. length row = 2 * (ncols mic div 2))"
proof -
  from bin_mic_stages [OF assms(1), of cutoff bwo lp] obtain S S' where
    S: "rfft2 mic = Inr S" "(if lp then low_pass S F cutoff bwo else Inr S) = Inr S'"
    and S': "rect S'" "nrows S' = nrows mic" "ncols S' = ncols mic div 2 + 1"
    and b: "bin_mic mic apix cutoff None lp bwo
        = (case fourier_crop S' F cutoff of Inl e \<Rightarrow> Inl e | Inr crop \<Rightarrow> irfft2 crop)"
    by blast
  from fourier_crop_field [OF assms(1,2) S', of cutoff] obtain c_h c_v where
    c: "fourier_crop S' F cutoff
        = Inr (map (take c_h) (take c_v S') @ map (take c_h) (drop (nrows mic - c_v) S'))"
    and h: "c_h \<le> ncols S'" "c_h < ncols S' \<longrightarrow> cutoff \<le> F ! 0 ! c_h"
    and v: "c_v \<le> nrows mic div 2" "c_v < nrows mic div 2 \<longrightarrow> cutoff \<le> F ! c_v ! 0"
    by blast
  have ch: "c_h = ncols S'"
  proof (rule ccontr)
    assume "c_h \<noteq> ncols S'"
    with h(1) have lt: "c_h < ncols S'" by simp
    with S'(3) have "c_h \<le> ncols mic div 2" by simp
    with assms(5) have "F ! 0 ! c_h < cutoff" by simp
    with h(2) lt show False by simp
  qed
  have cv: "c_v = nrows mic div 2"
  proof (rule ccontr)
    assume "c_v \<noteq> nrows mic div 2"
    with v(1) have lt: "c_v < nrows mic div 2" by simp
    with assms(6) have "F ! c_v ! 0 < cutoff" by simp
    with v(2) lt show False by simp
  qed
  let ?crop = "take (nrows mic div 2) S' @ drop (nrows mic - nrows mic div 2) S'"
  have t1: "map (take (ncols S')) (take (nrows mic div 2) S') = take (nrows mic div 2) S'"
    by (rule rect_take_ncols [OF _ S'(1)]) (rule set_take_subset)
  have t2: "map (take (ncols S')) (drop (nrows mic - nrows mic div 2) S')
      = drop (nrows mic - nrows mic div 2) S'"
    by (rule rect_take_ncols [OF _ S'(1)]) (rule set_drop_subset)
  have e: "fourier_crop S' F cutoff = Inr ?crop"
    unfolding c ch cv t1 t2 ..
  from v(1) S'(2) cv have cvn: "nrows mic div 2 \<le> nrows S'" by linarith
  from assms(3) have cvpos: "0 < nrows mic div 2" by linarith
  have le: "ncols S' \<le> ncols S'" by simp
  have n: "nrows ?crop = 2 * (nrows mic div 2)"
    using crop_shape(1) [OF S'(1) le cvn, unfolded S'(2) t1 t2] by simp
  have cc: "ncols ?crop = ncols mic div 2 + 1"
    using crop_shape(2) [OF S'(1) le cvn cvpos, unfolded S'(2) t1 t2] S'(3) by simp
  have "0 < nrows ?crop" "2 \<le> ncols ?crop" using n cc assms(3,4) cvpos by linarith+
  from irfft2_Inr [OF this] obtain out where
    o: "irfft2 ?crop = Inr out" "nrows out = nrows ?crop"
      "\<forall>row \<in> set out. length row = 2 * (ncols ?crop - 1)"
    by blast
  from b e o(1) have r: "bin_mic mic apix cutoff None lp bwo = Inr out" by simp
  from o(2) n have n': "nrows out = 2 * (nrows mic div 2)" by simp
  from o(3) cc have c': "\<forall>row \<in> set out. length row = 2 * (ncols mic div 2)" by simp
  from S e r n' c' show ?thesis by blast
qed

section \<open>Reading and writing the store; centring\<close>

lemma length_store [simp]: "length (store h r v) = length h"
  by (cases r) (auto split: ndarray.splits)

lemma fetch_store_same: "valid h r \<Longrightarrow> fetch (store h r v) r = v"
  by (cases r) (auto split: ndarray.splits)

lemma fetch_store_other:
  "valid h r \<Longrightarrow> valid h r' \<Longrightarrow> r \<noteq> r' \<Longrightarrow> fetch (store h r v) r' = fetch h r'"
  by (cases r; cases r') (auto split: ndarray.splits simp: nth_list_update)

lemma valid_store:
  "valid h r \<Longrightarrow> valid h r' \<Longrightarrow> rect v \<Longrightarrow> valid (store h r v) r'"
  by (cases r; cases r') (auto split: ndarray.splits simp: nth_list_update)

lemma valid_rect: "valid h r \<Longrightarrow> rect (fetch h r)"
  by (cases r) (auto split: ndarray.splits)

lemma concat_map_map: "concat (map (map f) a) = map f (concat a)"
  by (induction a) simp_all

lemma nrows_center [simp]: "nrows (center a) = nrows a"
  by (simp add: center_def nrows_def)

lemma ncols_center [simp]: "ncols (center a) = ncols a"
  by (cases a) (simp_all add: center_def ncols_def)

lemma rect_center: "rect a \<Longrightarrow> rect (center a)"
  unfolding rect_def ncols_center by (simp add: center_def list_all_iff)

lemma sum_list_shift: "sum_list (map (\<lambda>x. x - m) xs) = sum_list xs - real (length xs) * (m::real)"
  by (induction xs) (simp_all add: algebra_simps)

lemma mean2_center: "mean2 (center a) = 0"
proof (cases "concat a = []")
  case True
  then show ?thesis by (simp add: mean2_def sum2_def center_def concat_map_map)
next
  case False
  then have n: "real (length (concat a)) \<noteq> 0" by simp
  have "sum2 (center a) = sum2 a - real (length (concat a)) * mean2 a"
    by (simp add: sum2_def center_def concat_map_map sum_list_shift)
  also have "\<dots> = 0" using n by (simp add: mean2_def)
  finally show ?thesis by (simp add: mean2_def)
qed

lemma center_idem: "center (center a) = center a"
proof -
  have "center (center a) = map (map (\<lambda>x. x - 0)) (center a)"
    unfolding center_def [of "center a"] mean2_center ..
  also have "\<dots> = center a" by (simp add: map_idI)
  finally show ?thesis .
qed

lemma mul2_same_shape:
  assumes "rect a" "rect b" "nrows a = nrows b" "ncols a = ncols b"
  shows "mul2 a b = Inr (map2 (map2 (*)) a b)"
proof -
  have "broadcast_to (nrows a) (ncols a) a = Inr a" "broadcast_to (nrows a) (ncols a) b = Inr b"
    using assms by (simp_all add: broadcast_to_same)
  then show ?thesis using assms(3,4) by (simp add: mul2_def bdim_def)
qed

lemma sum2_square_nonneg: "0 \<le> sum2 (square a)"
  unfolding sum2_def square_def concat_map_map by (rule sum_list_nonneg) auto

lemma correlate_same_shape:
  assumes "rect a" "rect b" "nrows a = nrows b" "ncols a = ncols b"
  shows "correlate a b
    = Inr (fl_div (Fin (sum2 (map2 (map2 (*)) a b)))
                  (Fin (sqrt (sum2 (square a) * sum2 (square b)))))"
  by (simp add: correlate_def mul2_same_shape [OF assms] real_sqrt_mult)

lemma get_CC_store:
  assumes "valid h image1" "valid h image2"
  shows "fetch (snd (get_CC image1 image2 h)) image1 = center (fetch h image1)"
    and "fetch (snd (get_CC image1 image2 h)) image2 = center (fetch h image2)"
    and "fst (get_CC image1 image2 h)
          = correlate (center (fetch h image1)) (center (fetch h image2))"
proof -
  define h1 where "h1 = store h image1 (center (fetch h image1))"
  define h2 where "h2 = store h1 image2 (center (fetch h1 image2))"
  have r1: "rect (center (fetch h image1))" using assms(1) by (simp add: valid_rect rect_center)
  have v1: "valid h1 image1" "valid h1 image2"
    unfolding h1_def using assms r1 by (simp_all add: valid_store)
  have f1: "fetch h1 image1 = center (fetch h image1)"
    unfolding h1_def using assms(1) by (rule fetch_store_same)
  have f12: "fetch h1 image2 = (if image1 = image2 then center (fetch h image1) else fetch h image2)"
    unfolding h1_def using assms by (simp add: fetch_store_same fetch_store_other)
  have c2: "center (fetch h1 image2) = center (fetch h image2)"
    unfolding f12 by (simp add: center_idem)
  have f2: "fetch h2 image2 = center (fetch h image2)"
    unfolding h2_def c2 using v1(2) by (rule fetch_store_same)
  have f21: "fetch h2 image1 = center (fetch h image1)"
  proof (cases "image1 = image2")
    case True
    with f2 show ?thesis by simp
  next
    case False
    then have "image2 \<noteq> image1" by simp
    from fetch_store_other [OF v1(2) v1(1) this] f1 show ?thesis by (simp add: h2_def)
  qed
  have g: "get_CC image1 image2 h = (correlate (fetch h2 image1) (fetch h2 image2), h2)"
    by (simp add: get_CC_def Let_def h1_def h2_def)
  show "fetch (snd (get_CC image1 image2 h)) image1 = center (fetch h image1)"
    unfolding g using f21 by simp
  show "fetch (snd (get_CC image1 image2 h)) image2 = center (fetch h image2)"
    unfolding g using f2 by simp
  show "fst (get_CC image1 image2 h)
          = correlate (center (fetch h image1)) (center (fetch h image2))"
    unfolding g using f2 f21 by simp
qed

lemma map2_same: "map2 f xs xs = map (\<lambda>x. f x x) xs"
  by (induction xs) simp_all

lemma sum2_self_product: "sum2 (map2 (map2 (*)) a a) = sum2 (square a)"
  by (simp add: map2_same square_def power2_eq_square)

lemma sum_list_squares_pos:
  "v \<in> set xs \<Longrightarrow> v \<noteq> 0 \<Longrightarrow> 0 < sum_list (map (\<lambda>x. x\<^sup>2) xs)" for v :: real
proof (induction xs)
  case Nil
  then show ?case by simp
next
  case (Cons x xs)
  have rest: "0 \<le> sum_list (map (\<lambda>x. x\<^sup>2) xs)" by (rule sum_list_nonneg) auto
  show ?case
  proof (cases "v = x")
    case True
    with Cons.prems(2) have "0 < x\<^sup>2" by simp
    with rest have "0 < x\<^sup>2 + sum_list (map (\<lambda>x. x\<^sup>2) xs)" by (rule add_pos_nonneg [rotated])
    then show ?thesis by simp
  next
    case False
    with Cons.prems(1) have "v \<in> set xs" by simp
    from Cons.IH [OF this Cons.prems(2)] have "0 < sum_list (map (\<lambda>x. x\<^sup>2) xs)" .
    moreover have "0 \<le> x\<^sup>2" by simp
    ultimately have "0 < x\<^sup>2 + sum_list (map (\<lambda>x. x\<^sup>2) xs)" by (rule add_nonneg_pos [rotated])
    then show ?thesis by simp
  qed
qed

lemma sum2_square_pos:
  assumes "\<exists>v \<in> set (concat a). v \<noteq> 0"
  shows "0 < sum2 (square a)"
  using assms sum_list_squares_pos unfolding sum2_def square_def concat_map_map by blast

lemma center_nonzero:
  assumes "u \<in> set (concat a)" "v \<in> set (concat a)" "u \<noteq> v"
  shows "\<exists>z \<in> set (concat (center a)). z \<noteq> 0"
proof -
  have s: "set (concat (center a)) = (\<lambda>x. x - mean2 a) ` set (concat a)"
    by (simp add: center_def concat_map_map)
  from assms(3) have "u - mean2 a \<noteq> 0 \<or> v - mean2 a \<noteq> 0" by auto
  with assms(1,2) show ?thesis unfolding s by blast
qed

section \<open>Patches of an image\<close>

lemma arange_positive_step:
  assumes "0 < step"
  shows "arange stop step = Inr (map (\<lambda>k. int k * step) [0..<nat (- ((- stop) div step))])"
    and "k < nat (- ((- stop) div step)) \<Longrightarrow> 0 \<le> int k * step \<and> int k * step < stop"
proof -
  show "arange stop step = Inr (map (\<lambda>k. int k * step) [0..<nat (- ((- stop) div step))])"
    using assms by (simp add: arange_def)
  assume k: "k < nat (- ((- stop) div step))"
  define q where "q = (- stop) div step"
  define r where "r = (- stop) mod step"
  have r: "0 \<le> r" "r < step" using assms by (simp_all add: r_def)
  have eq: "- stop = step * q + r" by (simp add: q_def r_def)
  from k have "int k + 1 \<le> - q" unfolding q_def by linarith
  then have "(int k + 1) * step \<le> (- q) * step" using assms by (intro mult_right_mono) simp_all
  then have "int k * step + step \<le> - (step * q)" by (simp add: algebra_simps)
  with eq r have "int k * step < stop" by linarith
  moreover have "0 \<le> int k * step" using assms by simp
  ultimately show "0 \<le> int k * step \<and> int k * step < stop" by simp
qed

lemma arange_empty:
  assumes "0 < step" "stop \<le> 0"
  shows "arange stop step = Inr []"
proof -
  from assms have "0 \<le> (- stop) div step" by (simp add: pos_imp_zdiv_nonneg_iff)
  then have "nat (- ((- stop) div step)) = 0" by simp
  with arange_positive_step(1) [OF assms(1), of stop] show ?thesis by simp
qed

lemma pyslice_inside:
  assumes "0 \<le> c" "c + int w < int (length xs)"
  shows "pyslice c (c + int w) xs = take w (drop (nat c) xs)" "length (pyslice c (c + int w) xs) = w"
proof -
  from assms have a: "slice_index (length xs) c = nat c" by (simp add: slice_index_def)
  from assms have b: "slice_index (length xs) (c + int w) = nat c + w"
    by (simp add: slice_index_def nat_add_distrib)
  show "pyslice c (c + int w) xs = take w (drop (nat c) xs)"
    by (simp add: pyslice_def a b)
  then show "length (pyslice c (c + int w) xs) = w" using assms by simp
qed

lemma product_Nil_right [simp]: "List.product xs [] = []"
  by (induction xs) simp_all

lemma py_int_default: "py_int (real w * (1 - 0)) = int w"
  by (simp add: py_int_def)

lemma patch_views_small:
  assumes "0 < py_int (real w * (1 - overlap))" and "nrows img \<le> w \<or> ncols img \<le> w"
  shows "patch_views img w overlap = Inr []"
proof -
  from assms(2) have "int (nrows img) - int w \<le> 0 \<or> int (ncols img) - int w \<le> 0" by auto
  then show ?thesis
  proof
    assume "int (nrows img) - int w \<le> 0"
    from arange_empty [OF assms(1) this] arange_positive_step(1) [OF assms(1)]
    show ?thesis by (simp add: patch_views_def Let_def uniform_def)
  next
    assume "int (ncols img) - int w \<le> 0"
    from arange_empty [OF assms(1) this] arange_positive_step(1) [OF assms(1)]
    show ?thesis by (simp add: patch_views_def Let_def uniform_def)
  qed
qed

lemma square_patch:
  assumes "nrows p = w" "\<forall>r \<in> set p. length r = w" "1 \<le> w"
  shows "rect p" "ncols p = w"
proof -
  from assms(1,3) obtain r rs where p: "p = r # rs" by (cases p) (auto simp: nrows_def)
  with assms(2) show c: "ncols p = w" by (simp add: ncols_def)
  with assms(2) show "rect p" by (simp add: rect_def list_all_iff)
qed

lemma uniformI:
  assumes "\<forall>p \<in> set ps. nrows p = w \<and> (\<forall>r \<in> set p. length r = w)" "1 \<le> w"
  shows "uniform ps"
proof (cases ps)
  case Nil
  then show ?thesis by (simp add: uniform_def)
next
  case (Cons q qs)
  then have "q \<in> set ps" by simp
  with assms have "nrows q = w" "ncols q = w" using square_patch(2) by blast+
  with assms(1) Cons show ?thesis by (simp add: uniform_def list_all_iff)
qed

lemma patch_views_default:
  assumes "rect img" "1 \<le> w"
  shows "\<exists>P. patch_views img w 0 = Inr P
    \<and> (\<forall>p \<in> set P. rect p \<and> nrows p = w \<and> ncols p = w)
    \<and> length P = nat (- ((- (int (nrows img) - int w)) div int w))
                 * nat (- ((- (int (ncols img) - int w)) div int w))"
proof -
  define kx where "kx = nat (- ((- (int (nrows img) - int w)) div int w))"
  define ky where "ky = nat (- ((- (int (ncols img) - int w)) div int w))"
  define X where "X = map (\<lambda>k. int k * int w) [0..<kx]"
  define Y where "Y = map (\<lambda>k. int k * int w) [0..<ky]"
  define P where "P = map (\<lambda>c. map (pyslice (snd c) (snd c + int w))
                                (pyslice (fst c) (fst c + int w) img)) (List.product X Y)"
  from assms(2) have step: "0 < int w" by simp
  have ax: "arange (int (nrows img) - int w) (int w) = Inr X"
    unfolding X_def kx_def by (rule arange_positive_step(1) [OF step])
  have ay: "arange (int (ncols img) - int w) (int w) = Inr Y"
    unfolding Y_def ky_def by (rule arange_positive_step(1) [OF step])
  have inX: "\<And>c. c \<in> set X \<Longrightarrow> 0 \<le> c \<and> c + int w < int (nrows img)"
  proof -
    fix c assume "c \<in> set X"
    then obtain k where "k < kx" "c = int k * int w" by (auto simp: X_def)
    with arange_positive_step(2) [OF step, of k "int (nrows img) - int w"]
    show "0 \<le> c \<and> c + int w < int (nrows img)" unfolding kx_def by simp
  qed
  have inY: "\<And>c. c \<in> set Y \<Longrightarrow> 0 \<le> c \<and> c + int w < int (ncols img)"
  proof -
    fix c assume "c \<in> set Y"
    then obtain k where "k < ky" "c = int k * int w" by (auto simp: Y_def)
    with arange_positive_step(2) [OF step, of k "int (ncols img) - int w"]
    show "0 \<le> c \<and> c + int w < int (ncols img)" unfolding ky_def by simp
  qed
  have shape: "\<forall>p \<in> set P. nrows p = w \<and> (\<forall>r \<in> set p. length r = w)"
  proof
    fix p assume "p \<in> set P"
    then obtain c0 c1 where c: "c0 \<in> set X" "c1 \<in> set Y"
      and p: "p = map (pyslice c1 (c1 + int w)) (pyslice c0 (c0 + int w) img)"
      by (auto simp: P_def)
    from inX [OF c(1)] have x: "0 \<le> c0" "c0 + int w < int (length img)" by (simp_all add: nrows_def)
    have n: "nrows p = w" unfolding p nrows_def using pyslice_inside(2) [OF x] by simp
    have "\<forall>r \<in> set p. length r = w"
    proof
      fix r assume "r \<in> set p"
      then obtain r0 where r0: "r0 \<in> set (pyslice c0 (c0 + int w) img)" "r = pyslice c1 (c1 + int w) r0"
        unfolding p by auto
      from r0(1) have "r0 \<in> set img"
        unfolding pyslice_inside(1) [OF x] by (auto dest: in_set_takeD in_set_dropD)
      with assms(1) have "length r0 = ncols img" by (simp add: rect_def list_all_iff)
      with inY [OF c(2)] have "0 \<le> c1" "c1 + int w < int (length r0)" by simp_all
      from pyslice_inside(2) [OF this] r0(2) show "length r = w" by simp
    qed
    with n show "nrows p = w \<and> (\<forall>r \<in> set p. length r = w)" by simp
  qed
  from uniformI [OF shape assms(2)] have u: "uniform P" .
  have pv: "patch_views img w 0 = Inr P"
    unfolding patch_views_def Let_def py_int_default ax ay using u by (simp add: P_def)
  have sq: "\<forall>p \<in> set P. rect p \<and> nrows p = w \<and> ncols p = w"
    using shape square_patch assms(2) by blast
  have "length P = kx * ky" by (simp add: P_def X_def Y_def)
  with pv sq show ?thesis unfolding kx_def ky_def by blast
qed

lemma patch_views_same_shape:
  assumes "rect a" "rect b" "nrows a = nrows b" "ncols a = ncols b" "1 \<le> w"
  shows "\<exists>P Q. patch_views a w 0 = Inr P \<and> patch_views b w 0 = Inr Q \<and> length P = length Q
    \<and> (\<forall>p \<in> set P. rect p \<and> nrows p = w \<and> ncols p = w)
    \<and> (\<forall>q \<in> set Q. rect q \<and> nrows q = w \<and> ncols q = w)"
  using patch_views_default [OF assms(1,5)] patch_views_default [OF assms(2,5)] assms(3,4)
  by (metis (no_types, lifting))


section \<open>The loop over the patches\<close>

lemma get_CC_patches:
  assumes "p1 < length h" "p2 < length h" "p1 \<noteq> p2" "h ! p1 = Arr3 Q1" "h ! p2 = Arr3 Q2"
    and "i < length Q1" "i < length Q2" "rect (Q1 ! i)" "rect (Q2 ! i)"
    and "nrows (Q1 ! i) = nrows (Q2 ! i)" "ncols (Q1 ! i) = ncols (Q2 ! i)"
  shows "get_CC (Patch p1 i) (Patch p2 i) h
    = (Inr (spec_cross_correlation (Q1 ! i) (Q2 ! i)),
       h[p1 := Arr3 (Q1[i := center (Q1 ! i)]), p2 := Arr3 (Q2[i := center (Q2 ! i)])])"
proof -
  have r: "rect (center (Q1 ! i))" "rect (center (Q2 ! i))"
    using assms(8,9) by (simp_all add: rect_center)
  have c: "correlate (center (Q1 ! i)) (center (Q2 ! i))
      = Inr (spec_cross_correlation (Q1 ! i) (Q2 ! i))"
    using correlate_same_shape [OF r] assms(10,11) by (simp add: spec_cross_correlation_def)
  show ?thesis
    using assms(1-7) c by (simp add: get_CC_def Let_def)
qed

lemma cc_loop_patches:
  assumes "p1 < length h" "p2 < length h" "p1 \<noteq> p2" "h ! p1 = Arr3 Q1" "h ! p2 = Arr3 Q2"
    and "distinct idxs"
    and "\<forall>i \<in> set idxs. i < length Q1 \<and> i < length Q2 \<and> rect (Q1 ! i) \<and> rect (Q2 ! i)
          \<and> nrows (Q1 ! i) = nrows (Q2 ! i) \<and> ncols (Q1 ! i) = ncols (Q2 ! i)"
  shows "\<exists>R1 R2. cc_loop p1 p2 idxs h
      = (Inr (map (\<lambda>i. spec_cross_correlation (Q1 ! i) (Q2 ! i)) idxs),
         h[p1 := Arr3 R1, p2 := Arr3 R2])
    \<and> length R1 = length Q1 \<and> length R2 = length Q2
    \<and> (\<forall>j<length Q1. R1 ! j = (if j \<in> set idxs then center (Q1 ! j) else Q1 ! j))
    \<and> (\<forall>j<length Q2. R2 ! j = (if j \<in> set idxs then center (Q2 ! j) else Q2 ! j))"
  using assms
proof (induction idxs arbitrary: h Q1 Q2)
  case Nil
  have "h[p1 := Arr3 Q1, p2 := Arr3 Q2] = h"
    using Nil.prems(4,5) by (metis list_update_id)
  then show ?case by (intro exI [of _ Q1] exI [of _ Q2]) simp
next
  case (Cons i idxs)
  note p = Cons.prems
  from p(7) have i: "i < length Q1" "i < length Q2" "rect (Q1 ! i)" "rect (Q2 ! i)"
    "nrows (Q1 ! i) = nrows (Q2 ! i)" "ncols (Q1 ! i) = ncols (Q2 ! i)" by simp_all
  from p(6) have ni: "i \<notin> set idxs" and d: "distinct idxs" by simp_all
  define Q1' where "Q1' = Q1[i := center (Q1 ! i)]"
  define Q2' where "Q2' = Q2[i := center (Q2 ! i)]"
  define h' where "h' = h[p1 := Arr3 Q1', p2 := Arr3 Q2']"
  have g: "get_CC (Patch p1 i) (Patch p2 i) h = (Inr (spec_cross_correlation (Q1 ! i) (Q2 ! i)), h')"
    unfolding h'_def Q1'_def Q2'_def by (rule get_CC_patches [OF p(1-5) i])
  have h': "p1 < length h'" "p2 < length h'" "h' ! p1 = Arr3 Q1'" "h' ! p2 = Arr3 Q2'"
    using p(1,2,3) by (simp_all add: h'_def)
  have rest: "\<forall>j \<in> set idxs. j < length Q1' \<and> j < length Q2' \<and> rect (Q1' ! j) \<and> rect (Q2' ! j)
          \<and> nrows (Q1' ! j) = nrows (Q2' ! j) \<and> ncols (Q1' ! j) = ncols (Q2' ! j)"
  proof
    fix j assume j: "j \<in> set idxs"
    with ni have "j \<noteq> i" by auto
    then have "Q1' ! j = Q1 ! j" "Q2' ! j = Q2 ! j" by (simp_all add: Q1'_def Q2'_def)
    with p(7) j show "j < length Q1' \<and> j < length Q2' \<and> rect (Q1' ! j) \<and> rect (Q2' ! j)
          \<and> nrows (Q1' ! j) = nrows (Q2' ! j) \<and> ncols (Q1' ! j) = ncols (Q2' ! j)"
      by (simp add: Q1'_def Q2'_def)
  qed
  from Cons.IH [OF h'(1,2) p(3) h'(3,4) d rest] obtain R1 R2 where
    l: "cc_loop p1 p2 idxs h'
      = (Inr (map (\<lambda>i. spec_cross_correlation (Q1' ! i) (Q2' ! i)) idxs),
         h'[p1 := Arr3 R1, p2 := Arr3 R2])"
    and len: "length R1 = length Q1'" "length R2 = length Q2'"
    and R1: "\<forall>j<length Q1'. R1 ! j = (if j \<in> set idxs then center (Q1' ! j) else Q1' ! j)"
    and R2: "\<forall>j<length Q2'. R2 ! j = (if j \<in> set idxs then center (Q2' ! j) else Q2' ! j)"
    by blast
  have vals: "map (\<lambda>i. spec_cross_correlation (Q1' ! i) (Q2' ! i)) idxs
      = map (\<lambda>i. spec_cross_correlation (Q1 ! i) (Q2 ! i)) idxs"
  proof (rule map_cong [OF refl])
    fix j assume "j \<in> set idxs"
    with ni have "j \<noteq> i" by auto
    then show "spec_cross_correlation (Q1' ! j) (Q2' ! j) = spec_cross_correlation (Q1 ! j) (Q2 ! j)"
      by (simp add: Q1'_def Q2'_def)
  qed
  have heap: "h'[p1 := Arr3 R1, p2 := Arr3 R2] = h[p1 := Arr3 R1, p2 := Arr3 R2]"
    unfolding h'_def using p(3) by (simp add: list_update_swap [of p1 p2])
  have sl: "\<not> stack_len h p2 \<le> i" using p(5) i(2) by (simp add: stack_len_def)
  have loop: "cc_loop p1 p2 (i # idxs) h
      = (Inr (map (\<lambda>i. spec_cross_correlation (Q1 ! i) (Q2 ! i)) (i # idxs)),
         h[p1 := Arr3 R1, p2 := Arr3 R2])"
    using sl by (simp add: g l vals heap)
  have R1': "\<forall>j<length Q1. R1 ! j = (if j \<in> set (i # idxs) then center (Q1 ! j) else Q1 ! j)"
  proof (intro allI impI)
    fix j assume j: "j < length Q1"
    then have "R1 ! j = (if j \<in> set idxs then center (Q1' ! j) else Q1' ! j)"
      using R1 by (simp add: Q1'_def)
    then show "R1 ! j = (if j \<in> set (i # idxs) then center (Q1 ! j) else Q1 ! j)"
      using ni j by (cases "j = i") (simp_all add: Q1'_def)
  qed
  have R2': "\<forall>j<length Q2. R2 ! j = (if j \<in> set (i # idxs) then center (Q2 ! j) else Q2 ! j)"
  proof (intro allI impI)
    fix j assume j: "j < length Q2"
    then have "R2 ! j = (if j \<in> set idxs then center (Q2' ! j) else Q2' ! j)"
      using R2 by (simp add: Q2'_def)
    then show "R2 ! j = (if j \<in> set (i # idxs) then center (Q2 ! j) else Q2 ! j)"
      using ni j by (cases "j = i") (simp_all add: Q2'_def)
  qed
  from len have len': "length R1 = length Q1" "length R2 = length Q2"
    by (simp_all add: Q1'_def Q2'_def)
  from loop len' R1' R2' show ?case by blast
qed


lemma valid_append: "valid h r \<Longrightarrow> valid (h @ cs) r"
  by (cases r) (auto simp: nth_append split: ndarray.splits)

lemma fetch_append: "valid h r \<Longrightarrow> fetch (h @ cs) r = fetch h r"
  by (cases r) (auto simp: nth_append split: ndarray.splits)

lemma map_nth_pairs:
  "length xs = length ys \<Longrightarrow> map (\<lambda>i. f (xs ! i) (ys ! i)) [0..<length xs] = map2 f xs ys"
  by (rule nth_equalityI) simp_all

lemma get_patches_append:
  assumes "patch_views (fetch h img) w overlap = Inr P"
  shows "get_patches img w overlap h = (Inr (length h), h @ [Arr3 P])"
  using assms by (simp add: get_patches_def)

lemma get_patch_CC_same_shape:
  assumes "valid h image1" "valid h image2"
    and "nrows (fetch h image1) = nrows (fetch h image2)"
    and "ncols (fetch h image1) = ncols (fetch h image2)"
  shows "\<exists>P Q. patch_views (fetch h image1) 192 0 = Inr P
    \<and> patch_views (fetch h image2) 192 0 = Inr Q \<and> length P = length Q
    \<and> get_patch_CC image1 image2 h
        = (Inr (np_mean (map2 spec_cross_correlation P Q)),
           h @ [Arr3 (map center P), Arr3 (map center Q)])"
proof -
  have w: "(1::nat) \<le> 192" by simp
  from patch_views_same_shape [OF valid_rect [OF assms(1)] valid_rect [OF assms(2)] assms(3,4) w]
  obtain P Q where P: "patch_views (fetch h image1) 192 0 = Inr P"
    and Q: "patch_views (fetch h image2) 192 0 = Inr Q" and len: "length P = length Q"
    and sP: "\<forall>p \<in> set P. rect p \<and> nrows p = 192 \<and> ncols p = 192"
    and sQ: "\<forall>q \<in> set Q. rect q \<and> nrows q = 192 \<and> ncols q = 192"
    by blast
  define h2 where "h2 = h @ [Arr3 P, Arr3 Q]"
  have g1: "get_patches image1 192 0 h = (Inr (length h), h @ [Arr3 P])"
    by (rule get_patches_append [OF P])
  have "patch_views (fetch (h @ [Arr3 P]) image2) 192 0 = Inr Q"
    using Q fetch_append [OF assms(2)] by simp
  from get_patches_append [OF this]
  have g2: "get_patches image2 192 0 (h @ [Arr3 P]) = (Inr (Suc (length h)), h2)"
    by (simp add: h2_def)
  have a: "length h < length h2" "Suc (length h) < length h2" "length h \<noteq> Suc (length h)"
    "h2 ! length h = Arr3 P" "h2 ! Suc (length h) = Arr3 Q"
    by (simp_all add: h2_def nth_append)
  have sl: "stack_len h2 (length h) = length P" using a(4) by (simp add: stack_len_def)
  have ok: "\<forall>i \<in> set [0..<length P]. i < length P \<and> i < length Q \<and> rect (P ! i) \<and> rect (Q ! i)
          \<and> nrows (P ! i) = nrows (Q ! i) \<and> ncols (P ! i) = ncols (Q ! i)"
  proof
    fix i assume "i \<in> set [0..<length P]"
    then have i: "i < length P" "i < length Q" using len by simp_all
    then have "P ! i \<in> set P" "Q ! i \<in> set Q" by simp_all
    with sP sQ i show "i < length P \<and> i < length Q \<and> rect (P ! i) \<and> rect (Q ! i)
          \<and> nrows (P ! i) = nrows (Q ! i) \<and> ncols (P ! i) = ncols (Q ! i)"
      by simp
  qed
  from cc_loop_patches [OF a distinct_upt ok] obtain R1 R2 where
    l: "cc_loop (length h) (Suc (length h)) [0..<length P] h2
      = (Inr (map (\<lambda>i. spec_cross_correlation (P ! i) (Q ! i)) [0..<length P]),
         h2[length h := Arr3 R1, Suc (length h) := Arr3 R2])"
    and lens: "length R1 = length P" "length R2 = length Q"
    and R1: "\<forall>j<length P. R1 ! j = (if j \<in> set [0..<length P] then center (P ! j) else P ! j)"
    and R2: "\<forall>j<length Q. R2 ! j = (if j \<in> set [0..<length P] then center (Q ! j) else Q ! j)"
    by blast
  have e1: "R1 = map center P"
    using lens(1) R1 by (intro nth_equalityI) simp_all
  have e2: "R2 = map center Q"
    using lens(2) R2 len by (intro nth_equalityI) simp_all
  have heap: "h2[length h := Arr3 R1, Suc (length h) := Arr3 R2]
      = h @ [Arr3 (map center P), Arr3 (map center Q)]"
    by (simp add: h2_def e1 e2 list_update_append)
  have "get_patch_CC image1 image2 h
        = (Inr (np_mean (map2 spec_cross_correlation P Q)),
           h @ [Arr3 (map center P), Arr3 (map center Q)])"
    by (simp add: get_patch_CC_def g1 g2 sl l heap map_nth_pairs [OF len])
  with P Q len show ?thesis by blast
qed

lemma get_SNR_same_shape:
  assumes "valid h image1" "valid h image2"
    and "nrows (fetch h image1) = nrows (fetch h image2)"
    and "ncols (fetch h image1) = ncols (fetch h image2)"
  shows "\<exists>P Q. patch_views (fetch h image1) 192 0 = Inr P
    \<and> patch_views (fetch h image2) 192 0 = Inr Q \<and> length P = length Q
    \<and> get_SNR image1 image2 h
        = (Inr (fl_div (np_mean (map2 spec_cross_correlation P Q))
                  (fl_sub (Fin 1) (np_mean (map2 spec_cross_correlation P Q)))),
           h @ [Arr3 (map center P), Arr3 (map center Q)])"
proof -
  from get_patch_CC_same_shape [OF assms] obtain P Q where
    "patch_views (fetch h image1) 192 0 = Inr P" "patch_views (fetch h image2) 192 0 = Inr Q"
    "length P = length Q"
    "get_patch_CC image1 image2 h
        = (Inr (np_mean (map2 spec_cross_correlation P Q)),
           h @ [Arr3 (map center P), Arr3 (map center Q)])"
    by blast
  then show ?thesis by (simp add: get_SNR_def)
qed


lemma get_patch_CC_no_patches:
  assumes "valid h image1" "valid h image2"
    and "nrows (fetch h image1) \<le> 192 \<or> ncols (fetch h image1) \<le> 192"
  shows "get_patches image1 192 0 h = (Inr (length h), h @ [Arr3 []])"
    and "fst (get_patch_CC image1 image2 h) = Inr NaN"
    and "fst (get_SNR image1 image2 h) = Inr NaN"
proof -
  have step: "0 < py_int (real 192 * (1 - 0))" unfolding py_int_default by simp
  have P: "patch_views (fetch h image1) 192 0 = Inr []"
    by (rule patch_views_small [OF step assms(3)])
  show g1: "get_patches image1 192 0 h = (Inr (length h), h @ [Arr3 []])"
    by (rule get_patches_append [OF P])
  have w: "(1::nat) \<le> 192" by simp
  from patch_views_default [OF valid_rect [OF assms(2)] w] obtain Q where
    "patch_views (fetch h image2) 192 0 = Inr Q" by blast
  then have "patch_views (fetch (h @ [Arr3 []]) image2) 192 0 = Inr Q"
    using fetch_append [OF assms(2)] by simp
  from get_patches_append [OF this]
  have g2: "get_patches image2 192 0 (h @ [Arr3 []]) = (Inr (Suc (length h)), h @ [Arr3 [], Arr3 Q])"
    by simp
  have sl: "stack_len (h @ [Arr3 [], Arr3 Q]) (length h) = 0"
    by (simp add: stack_len_def nth_append)
  show cc: "fst (get_patch_CC image1 image2 h) = Inr NaN"
    by (simp add: get_patch_CC_def g1 g2 sl np_mean_def)
  obtain r h' where rh: "get_patch_CC image1 image2 h = (r, h')"
    by (cases "get_patch_CC image1 image2 h")
  with cc have "r = Inr NaN" by simp
  with rh show "fst (get_SNR image1 image2 h) = Inr NaN"
    by (simp add: get_SNR_def)
qed


lemma patch_views_nonempty:
  assumes "patch_views img 192 0 = Inr P" "rect img" "192 < nrows img" "192 < ncols img"
  shows "P \<noteq> []"
proof -
  have w: "(1::nat) \<le> 192" by simp
  from patch_views_default [OF assms(2) w] assms(1)
  have len: "length P = nat (- ((- (int (nrows img) - int 192)) div int 192))
                 * nat (- ((- (int (ncols img) - int 192)) div int 192))"
    by simp
  have pos: "\<And>n::nat. 192 < n \<Longrightarrow> 0 < nat (- ((- (int n - int 192)) div int 192))"
  proof -
    fix n :: nat assume "192 < n"
    then have "- (int n - int 192) < 0" by simp
    then have "(- (int n - int 192)) div int 192 < 0" by (simp add: neg_imp_zdiv_neg_iff)
    then show "0 < nat (- ((- (int n - int 192)) div int 192))" by simp
  qed
  from pos [OF assms(3)] pos [OF assms(4)] len have "0 < length P" by simp
  then show ?thesis by auto
qed

lemma get_SNR_append:
  assumes "valid h image1" "valid h image2"
    and "nrows (fetch h image1) = nrows (fetch h image2)"
    and "ncols (fetch h image1) = ncols (fetch h image2)"
  shows "\<exists>v cs'. get_SNR image1 image2 h = (Inr v, h @ cs')
    \<and> (\<forall>cs. \<exists>cs''. get_SNR image1 image2 (h @ cs) = (Inr v, h @ cs @ cs''))"
proof -
  from get_SNR_same_shape [OF assms] obtain P Q where
    P: "patch_views (fetch h image1) 192 0 = Inr P" and Q: "patch_views (fetch h image2) 192 0 = Inr Q"
    and g: "get_SNR image1 image2 h
        = (Inr (fl_div (np_mean (map2 spec_cross_correlation P Q))
                  (fl_sub (Fin 1) (np_mean (map2 spec_cross_correlation P Q)))),
           h @ [Arr3 (map center P), Arr3 (map center Q)])"
    by blast
  have "\<forall>cs. \<exists>cs''. get_SNR image1 image2 (h @ cs)
        = (Inr (fl_div (np_mean (map2 spec_cross_correlation P Q))
                  (fl_sub (Fin 1) (np_mean (map2 spec_cross_correlation P Q)))), h @ cs @ cs'')"
  proof
    fix cs
    have v: "valid (h @ cs) image1" "valid (h @ cs) image2"
      using assms(1,2) by (simp_all add: valid_append)
    have f: "fetch (h @ cs) image1 = fetch h image1" "fetch (h @ cs) image2 = fetch h image2"
      using assms(1,2) by (simp_all add: fetch_append)
    from get_SNR_same_shape [OF v] assms(3,4) obtain P' Q' where
      P': "patch_views (fetch h image1) 192 0 = Inr P'" and Q': "patch_views (fetch h image2) 192 0 = Inr Q'"
      and g': "get_SNR image1 image2 (h @ cs)
        = (Inr (fl_div (np_mean (map2 spec_cross_correlation P' Q'))
                  (fl_sub (Fin 1) (np_mean (map2 spec_cross_correlation P' Q')))),
           (h @ cs) @ [Arr3 (map center P'), Arr3 (map center Q')])"
      unfolding f by blast
    from P P' Q Q' have "P' = P" "Q' = Q" by simp_all
    with g' show "\<exists>cs''. get_SNR image1 image2 (h @ cs)
        = (Inr (fl_div (np_mean (map2 spec_cross_correlation P Q))
                  (fl_sub (Fin 1) (np_mean (map2 spec_cross_correlation P Q)))), h @ cs @ cs'')"
      by simp
  qed
  with g show ?thesis by blast
qed

lemma get_denoised_SNR_value:
  assumes "valid h raw_even" and "valid h raw_odd" and "valid h denoised_even" and "valid h denoised_odd"
    and "nrows (fetch h raw_odd) = nrows (fetch h raw_even)"
    and "ncols (fetch h raw_odd) = ncols (fetch h raw_even)"
    and "nrows (fetch h denoised_even) = nrows (fetch h raw_even)"
    and "ncols (fetch h denoised_even) = ncols (fetch h raw_even)"
    and "nrows (fetch h denoised_odd) = nrows (fetch h raw_even)"
    and "ncols (fetch h denoised_odd) = ncols (fetch h raw_even)"
  shows "\<exists>raw_snr mixed1 mixed2.
      fst (get_SNR raw_even raw_odd h) = Inr raw_snr
    \<and> fst (get_SNR denoised_even raw_odd h) = Inr mixed1
    \<and> fst (get_SNR raw_even denoised_odd h) = Inr mixed2
    \<and> fst (get_denoised_SNR raw_even raw_odd denoised_even denoised_odd h)
        = Inr (fl_div (fl_sq (fl_div (fl_add mixed1 mixed2) (Fin 2))) raw_snr, raw_snr)"
proof -
  from get_SNR_append [OF assms(1,2)] assms(5,6) obtain raw_snr c1 where
    a: "get_SNR raw_even raw_odd h = (Inr raw_snr, h @ c1)" by auto
  from get_SNR_append [OF assms(3,2)] assms(5-8) obtain mixed1 c2 where
    b0: "get_SNR denoised_even raw_odd h = (Inr mixed1, h @ c2)"
    and b1: "\<forall>cs. \<exists>cs''. get_SNR denoised_even raw_odd (h @ cs) = (Inr mixed1, h @ cs @ cs'')"
    by auto
  from b1 obtain c2' where b: "get_SNR denoised_even raw_odd (h @ c1) = (Inr mixed1, h @ c1 @ c2')"
    by blast
  from get_SNR_append [OF assms(1,4)] assms(9,10) obtain mixed2 c3 where
    c0: "get_SNR raw_even denoised_odd h = (Inr mixed2, h @ c3)"
    and c1: "\<forall>cs. \<exists>cs''. get_SNR raw_even denoised_odd (h @ cs) = (Inr mixed2, h @ cs @ cs'')"
    by auto
  from c1 obtain c3' where
    c: "get_SNR raw_even denoised_odd (h @ c1 @ c2') = (Inr mixed2, h @ (c1 @ c2') @ c3')"
    by blast
  have "fst (get_denoised_SNR raw_even raw_odd denoised_even denoised_odd h)
        = Inr (fl_div (fl_sq (fl_div (fl_add mixed1 mixed2) (Fin 2))) raw_snr, raw_snr)"
    by (simp add: get_denoised_SNR_def a b c Let_def)
  with a b0 c0 show ?thesis by (intro exI [of _ raw_snr] exI [of _ mixed1] exI [of _ mixed2]) simp
qed


lemma ramp_shape: "nrows (ramp n a b) = n" "ncols (ramp n a b) = n" "rect (ramp n a b)"
proof -
  show n: "nrows (ramp n a b) = n" by (simp add: ramp_def nrows_def)
  have "\<And>i. i < length (ramp n a b) \<Longrightarrow> length (ramp n a b ! i) = n"
    by (simp add: ramp_def)
  from rectI [OF this] have r: "rect (ramp n a b)" "ramp n a b \<noteq> [] \<longrightarrow> ncols (ramp n a b) = n"
    by simp_all
  show "rect (ramp n a b)" by (rule r(1))
  show "ncols (ramp n a b) = n"
  proof (cases "n = 0")
    case True
    then show ?thesis by (simp add: ramp_def ncols_def)
  next
    case False
    then have "ramp n a b \<noteq> []" by (simp add: ramp_def)
    with r(2) show ?thesis by simp
  qed
qed

section \<open>A 2 x 2 image through the transforms\<close>

lemma rfft2_example: "rfft2 [[1, 2], [3, 4]] = Inr [[10, - 2], [- 4, 0]]"
  by (simp add: rfft2_def nrows_def ncols_def Let_def eval_nat_numeral lessThan_Suc
      twiddle_def)

lemma irfft2_example: "irfft2 [[10, - 2], [- 4, 0]] = Inr [[1, 2], [3, 4]]"
  by (simp add: irfft2_def ifft_axis0_def nrows_def ncols_def Let_def eval_nat_numeral lessThan_Suc
      twiddle_def)

lemma get_mic_freqs_example: "get_mic_freqs [[1, 2], [3, 4]] 1 = Inr [[0, 1 / 2], [1 / 2, sqrt (1 / 2)]]"
  by (simp add: get_mic_freqs_def rfftfreq_def fftfreq_def rfft_axis_def fft_axis_def fft_index_def
      radial_def nrows_def ncols_def Let_def eval_nat_numeral power2_eq_square real_sqrt_divide)

lemma searchsorted_examples: "searchsorted [0, 1 / 2] 1 = 2" "searchsorted [0] 1 = 1"
  by code_simp+

lemma fourier_crop_example:
  "fourier_crop [[10, - 2], [- 4, 0]] [[0, 1 / 2], [1 / 2, sqrt (1 / 2)]] 1 = Inr [[10, - 2], [- 4, 0]]"
  by (simp add: fourier_crop_def nrows_def ncols_def Let_def searchsorted_examples)

lemma bin_mic_example: "bin_mic [[1, 2], [3, 4]] 1 1 None False 5 = Inr [[1, 2], [3, 4]]"
  by (simp add: bin_mic_def choose_freqs_None get_mic_freqs_example rfft2_example
      fourier_crop_example irfft2_example)

text \<open>
  C4. For a half-spectrum \<open>mic_ft\<close> of an image \<open>mic\<close> (shape
  \<open>(n_x, n_y div 2 + 1)\<close>), its frequency field \<open>F\<close> and any cutoff (valid or not),
  \<open>fourier_crop\<close> returns rows \<open>0 .. c_v\<close> followed by the last \<open>c_v\<close> rows, each cut
  to its \<open>c_h\<close> leftmost entries. \<open>c_h\<close> is the first index at which the horizontal axis
  \<open>F[0]\<close> meets or exceeds the cutoff (all of the axis when no entry does), so every kept
  column has a frequency strictly below the cutoff; \<open>c_v\<close> is the same insertion point
  on the first \<open>n_x div 2\<close> entries of the vertical axis \<open>F[:, 0]\<close>. The output has
  \<open>2 * c_v\<close> rows, an even number, of \<open>c_h\<close> entries each.
\<close>

theorem fourier_crop_keeps_low_frequencies:
  assumes "get_mic_freqs mic apix = Inr F" and "0 < apix"
    and "rect mic_ft" and "nrows mic_ft = nrows mic" and "ncols mic_ft = ncols mic div 2 + 1"
  shows "\<exists>c_h c_v.
      fourier_crop mic_ft F cutoff
        = Inr (map (take c_h) (take c_v mic_ft) @ map (take c_h) (drop (nrows mic - c_v) mic_ft))
      \<and> c_h \<le> ncols mic_ft
      \<and> (\<forall>j<c_h. F ! 0 ! j < cutoff)
      \<and> (c_h < ncols mic_ft \<longrightarrow> cutoff \<le> F ! 0 ! c_h)
      \<and> c_v \<le> nrows mic div 2
      \<and> (\<forall>i<c_v. F ! i ! 0 < cutoff)
      \<and> (c_v < nrows mic div 2 \<longrightarrow> cutoff \<le> F ! c_v ! 0)
      \<and> (\<forall>out. fourier_crop mic_ft F cutoff = Inr out \<longrightarrow>
            nrows out = 2 * c_v \<and> even (nrows out) \<and> (\<forall>row \<in> set out. length row = c_h))"
  using fourier_crop_field [OF assms] .

theorem fourier_crop_keeps_low_frequencies_witness:
  "get_mic_freqs [[1, 2, 3, 4], [5, 6, 7, 8], [9, 10, 11, 12], [13, 14, 15, 16]] 1
      = Inr (radial (rfft_axis 4 1) (fft_axis 4 1))
   \<and> (0::real) < 1
   \<and> rect [[1, 2, 3], [4, 5, 6], [7, 8, 9], [10, 11, 12 :: complex]]
   \<and> nrows [[1, 2, 3], [4, 5, 6], [7, 8, 9], [10, 11, 12 :: complex]]
       = nrows [[1, 2, 3, 4], [5, 6, 7, 8], [9, 10, 11, 12], [13, 14, 15, 16 :: real]]
   \<and> ncols [[1, 2, 3], [4, 5, 6], [7, 8, 9], [10, 11, 12 :: complex]]
       = ncols [[1, 2, 3, 4], [5, 6, 7, 8], [9, 10, 11, 12], [13, 14, 15, 16 :: real]] div 2 + 1
   \<and> (\<exists>c_h c_v.
        fourier_crop [[1, 2, 3], [4, 5, 6], [7, 8, 9], [10, 11, 12]]
            (radial (rfft_axis 4 1) (fft_axis 4 1)) (3 / 10)
          = Inr (map (take c_h) (take c_v [[1, 2, 3], [4, 5, 6], [7, 8, 9], [10, 11, 12]])
                 @ map (take c_h) (drop (4 - c_v) [[1, 2, 3], [4, 5, 6], [7, 8, 9], [10, 11, 12]]))
        \<and> c_h \<le> 3 \<and> c_v \<le> 2)
   \<and> fourier_crop [[1, 2, 3], [4, 5, 6], [7, 8, 9], [10, 11, 12]]
            (radial (rfft_axis 4 1) (fft_axis 4 1)) (3 / 10)
        = Inr [[1, 2], [4, 5], [7, 8], [10, 11]]"
proof -
  have g: "get_mic_freqs [[1, 2, 3, 4], [5, 6, 7, 8], [9, 10, 11, 12], [13, 14, 15, 16]] 1
      = Inr (radial (rfft_axis 4 1) (fft_axis 4 1))"
  proof -
    have "nrows [[1, 2, 3, 4], [5, 6, 7, 8], [9, 10, 11, 12], [13, 14, 15, 16 :: real]] = 4"
      "ncols [[1, 2, 3, 4], [5, 6, 7, 8], [9, 10, 11, 12], [13, 14, 15, 16 :: real]] = 4"
      by (simp_all add: nrows_def ncols_def)
    with get_mic_freqs_Inr [of "[[1, 2, 3, 4], [5, 6, 7, 8], [9, 10, 11, 12], [13, 14, 15, 16]]" 1]
    show ?thesis by simp
  qed
  have r: "rect [[1, 2, 3], [4, 5, 6], [7, 8, 9], [10, 11, 12 :: complex]]"
    by (simp add: rect_def ncols_def)
  have n: "nrows [[1, 2, 3], [4, 5, 6], [7, 8, 9], [10, 11, 12 :: complex]]
       = nrows [[1, 2, 3, 4], [5, 6, 7, 8], [9, 10, 11, 12], [13, 14, 15, 16 :: real]]"
    by (simp add: nrows_def)
  have c: "ncols [[1, 2, 3], [4, 5, 6], [7, 8, 9], [10, 11, 12 :: complex]]
       = ncols [[1, 2, 3, 4], [5, 6, 7, 8], [9, 10, 11, 12], [13, 14, 15, 16 :: real]] div 2 + 1"
    by (simp add: ncols_def)
  have n4: "nrows [[1, 2, 3, 4], [5, 6, 7, 8], [9, 10, 11, 12], [13, 14, 15, 16 :: real]] = 4"
    by (simp add: nrows_def)
  have c3: "ncols [[1, 2, 3], [4, 5, 6], [7, 8, 9], [10, 11, 12 :: complex]] = 3"
    by (simp add: ncols_def)
  have c4: "ncols [[1, 2, 3, 4], [5, 6, 7, 8], [9, 10, 11, 12], [13, 14, 15, 16 :: real]] = 4"
    by (simp add: ncols_def)
  note row0 = get_mic_freqs_row0 [OF g zero_less_one, unfolded c4]
  note col0 = get_mic_freqs_col0 [OF g zero_less_one, unfolded n4]
  from fourier_crop_keeps_low_frequencies [OF g zero_less_one r n c, of "3 / 10", unfolded n4 c3]
  obtain c_h c_v where
    crop: "fourier_crop [[1, 2, 3], [4, 5, 6], [7, 8, 9], [10, 11, 12]]
            (radial (rfft_axis 4 1) (fft_axis 4 1)) (3 / 10)
          = Inr (map (take c_h) (take c_v [[1, 2, 3], [4, 5, 6], [7, 8, 9], [10, 11, 12]])
                 @ map (take c_h) (drop (4 - c_v) [[1, 2, 3], [4, 5, 6], [7, 8, 9], [10, 11, 12]]))"
    and h: "c_h \<le> 3" "\<forall>j<c_h. radial (rfft_axis 4 1) (fft_axis 4 1) ! 0 ! j < 3 / 10"
      "c_h < 3 \<longrightarrow> 3 / 10 \<le> radial (rfft_axis 4 1) (fft_axis 4 1) ! 0 ! c_h"
    and v: "c_v \<le> 4 div 2"
      "c_v < 4 div 2 \<longrightarrow> 3 / 10 \<le> radial (rfft_axis 4 1) (fft_axis 4 1) ! c_v ! 0"
    by blast
  have ex: "\<exists>c_h c_v.
        fourier_crop [[1, 2, 3], [4, 5, 6], [7, 8, 9], [10, 11, 12]]
            (radial (rfft_axis 4 1) (fft_axis 4 1)) (3 / 10)
          = Inr (map (take c_h) (take c_v [[1, 2, 3], [4, 5, 6], [7, 8, 9], [10, 11, 12]])
                 @ map (take c_h) (drop (4 - c_v) [[1, 2, 3], [4, 5, 6], [7, 8, 9], [10, 11, 12]]))
        \<and> c_h \<le> 3 \<and> c_v \<le> 2"
    using crop h(1) v(1) by (intro exI [of _ c_h] exI [of _ c_v]) simp
  have ch: "c_h = 2"
  proof -
    have "c_h \<noteq> 3"
    proof
      assume "c_h = 3"
      with h(2) have "radial (rfft_axis 4 1) (fft_axis 4 1) ! 0 ! 2 < 3 / 10" by simp
      with row0 [of 2] show False by simp
    qed
    moreover have "\<not> c_h \<le> 1"
    proof
      assume le: "c_h \<le> 1"
      with h(3) have "3 / 10 \<le> radial (rfft_axis 4 1) (fft_axis 4 1) ! 0 ! c_h" by simp
      with row0 [of c_h] le have "3 / 10 \<le> real c_h / 4" by simp
      moreover from le have "real c_h \<le> 1" by simp
      ultimately show False by simp
    qed
    ultimately show ?thesis using h(1) by linarith
  qed
  have cv: "c_v = 2"
  proof (rule ccontr)
    assume "c_v \<noteq> 2"
    with v(1) have lt: "c_v < 4 div 2" and le: "c_v \<le> 1" by simp_all
    with v(2) have "3 / 10 \<le> radial (rfft_axis 4 1) (fft_axis 4 1) ! c_v ! 0" by simp
    with col0 [OF lt] have "3 / 10 \<le> real c_v / 4" by simp
    moreover from le have "real c_v \<le> 1" by simp
    ultimately show False by simp
  qed
  have val: "fourier_crop [[1, 2, 3], [4, 5, 6], [7, 8, 9], [10, 11, 12]]
            (radial (rfft_axis 4 1) (fft_axis 4 1)) (3 / 10)
        = Inr [[1, 2], [4, 5], [7, 8], [10, 11]]"
    unfolding crop ch cv by (simp add: eval_nat_numeral)
  from g r n c ex val show ?thesis by (intro conjI) simp_all
qed

text \<open>
  C8. For every order \<open>bwo \<ge> 1\<close> and every \<open>cutoff > 0\<close> the Butterworth factor
  \<open>1 / (1 + (f / cutoff) ^ (2 * bwo))\<close> is 1 at \<open>f = 0\<close> and exactly one half at
  \<open>f = cutoff\<close>, and it is this factor, with the cutoff and the order that \<open>bin_mic\<close>
  was given, that \<open>bin_mic\<close> applies: with \<open>lp\<close> set, the spectrum that it crops and
  transforms back is the transform of the image with every coefficient multiplied by the
  factor of its frequency; with \<open>lp\<close> unset it is the transform itself.
\<close>

theorem butterworth_unit_gain_and_half:
  assumes "1 \<le> bwo" and "0 < cutoff"
  shows "butterworth 0 cutoff bwo = 1 \<and> butterworth cutoff cutoff bwo = 1 / 2
    \<and> (\<forall>S F. rect S \<and> rect F \<and> nrows F = nrows S \<and> ncols F = ncols S \<longrightarrow>
          low_pass S F cutoff bwo
            = Inr (map2 (map2 (\<lambda>z x. z * complex_of_real (butterworth x cutoff bwo))) S F))
    \<and> (\<forall>mic apix F S. get_mic_freqs mic apix = Inr F \<and> rfft2 mic = Inr S \<longrightarrow>
          bin_mic mic apix cutoff None True bwo
            = (case fourier_crop
                      (map2 (map2 (\<lambda>z x. z * complex_of_real (butterworth x cutoff bwo))) S F)
                      F cutoff of
                 Inl e \<Rightarrow> Inl e
               | Inr mic_ft_crop \<Rightarrow> irfft2 mic_ft_crop)
          \<and> bin_mic mic apix cutoff None False bwo
            = (case fourier_crop S F cutoff of
                 Inl e \<Rightarrow> Inl e
               | Inr mic_ft_crop \<Rightarrow> irfft2 mic_ft_crop))"
proof -
  from assms(1) have "2 * bwo \<noteq> 0" by simp
  then have e0: "(0 / cutoff) ^ (2 * bwo) = 0" by (simp add: power_0_left)
  have a: "butterworth 0 cutoff bwo = 1" by (simp only: butterworth_def e0) simp
  from assms(2) have e1: "(cutoff / cutoff) ^ (2 * bwo) = 1" by simp
  have b: "butterworth cutoff cutoff bwo = 1 / 2" by (simp only: butterworth_def e1) simp
  have c: "\<forall>mic apix F S. get_mic_freqs mic apix = Inr F \<and> rfft2 mic = Inr S \<longrightarrow>
          bin_mic mic apix cutoff None True bwo
            = (case fourier_crop
                      (map2 (map2 (\<lambda>z x. z * complex_of_real (butterworth x cutoff bwo))) S F)
                      F cutoff of
                 Inl e \<Rightarrow> Inl e
               | Inr mic_ft_crop \<Rightarrow> irfft2 mic_ft_crop)
          \<and> bin_mic mic apix cutoff None False bwo
            = (case fourier_crop S F cutoff of
                 Inl e \<Rightarrow> Inl e
               | Inr mic_ft_crop \<Rightarrow> irfft2 mic_ft_crop)"
  proof (intro allI impI, elim conjE)
    fix mic apix F S
    assume g: "get_mic_freqs mic apix = Inr F" and r: "rfft2 mic = Inr S"
    from bin_mic_stages [OF g, of cutoff bwo True] r obtain S1 where
      t: "low_pass S F cutoff bwo
            = Inr (map2 (map2 (\<lambda>z x. z * complex_of_real (butterworth x cutoff bwo))) S F)"
        "low_pass S F cutoff bwo = Inr S1"
        "bin_mic mic apix cutoff None True bwo
          = (case fourier_crop S1 F cutoff of Inl e \<Rightarrow> Inl e | Inr crop \<Rightarrow> irfft2 crop)"
      by auto
    from t(1,2) have "S1 = map2 (map2 (\<lambda>z x. z * complex_of_real (butterworth x cutoff bwo))) S F"
      by simp
    with t(3) have on: "bin_mic mic apix cutoff None True bwo
            = (case fourier_crop
                      (map2 (map2 (\<lambda>z x. z * complex_of_real (butterworth x cutoff bwo))) S F)
                      F cutoff of
                 Inl e \<Rightarrow> Inl e
               | Inr mic_ft_crop \<Rightarrow> irfft2 mic_ft_crop)"
      by simp
    from bin_mic_stages [OF g, of cutoff bwo False] r
    have off: "bin_mic mic apix cutoff None False bwo
            = (case fourier_crop S F cutoff of
                 Inl e \<Rightarrow> Inl e
               | Inr mic_ft_crop \<Rightarrow> irfft2 mic_ft_crop)"
      by auto
    from on off show "bin_mic mic apix cutoff None True bwo
            = (case fourier_crop
                      (map2 (map2 (\<lambda>z x. z * complex_of_real (butterworth x cutoff bwo))) S F)
                      F cutoff of
                 Inl e \<Rightarrow> Inl e
               | Inr mic_ft_crop \<Rightarrow> irfft2 mic_ft_crop)
          \<and> bin_mic mic apix cutoff None False bwo
            = (case fourier_crop S F cutoff of
                 Inl e \<Rightarrow> Inl e
               | Inr mic_ft_crop \<Rightarrow> irfft2 mic_ft_crop)"
      by (rule conjI)
  qed
  from a b low_pass_same_shape c show ?thesis by blast
qed

theorem butterworth_unit_gain_and_half_witness:
  "(1::nat) \<le> 5 \<and> (0::real) < 1 / 2
   \<and> butterworth 0 (1 / 2) 5 = 1 \<and> butterworth (1 / 2) (1 / 2) 5 = 1 / 2
   \<and> get_mic_freqs [[1, 2], [3, 4]] 1 = Inr [[0, 1 / 2], [1 / 2, sqrt (1 / 2)]]
   \<and> rfft2 [[1, 2], [3, 4]] = Inr [[10, - 2], [- 4, 0]]
   \<and> low_pass [[10, - 2], [- 4, 0]] [[0, 1 / 2], [1 / 2, sqrt (1 / 2)]] (1 / 2) 5
       = Inr [[10, - 1], [- 2, 0]]
   \<and> bin_mic [[1, 2], [3, 4]] 1 (1 / 2) None True 5
       = (case fourier_crop [[10, - 1], [- 2, 0]] [[0, 1 / 2], [1 / 2, sqrt (1 / 2)]] (1 / 2) of
            Inl e \<Rightarrow> Inl e
          | Inr mic_ft_crop \<Rightarrow> irfft2 mic_ft_crop)"
proof -
  have h: "(1::nat) \<le> 5" "(0::real) < 1 / 2" by simp_all
  note t = butterworth_unit_gain_and_half [OF h]
  from t have g0: "butterworth 0 (1 / 2) 5 = 1" and g1: "butterworth (1 / 2) (1 / 2) 5 = 1 / 2"
    by blast+
  have f: "map2 (map2 (\<lambda>z x. z * complex_of_real (butterworth x (1 / 2) 5)))
             [[10, - 2], [- 4, 0]] [[0, 1 / 2], [1 / 2, sqrt (1 / 2)]]
      = [[10, - 1], [- 2, 0]]"
    by (simp add: g0 g1)
  have sh: "rect [[10, - 2], [- 4, 0 :: complex]] \<and> rect [[0, 1 / 2], [1 / 2, sqrt (1 / 2)]]
      \<and> nrows [[0, 1 / 2], [1 / 2, sqrt (1 / 2)]] = nrows [[10, - 2], [- 4, 0 :: complex]]
      \<and> ncols [[0, 1 / 2], [1 / 2, sqrt (1 / 2)]] = ncols [[10, - 2], [- 4, 0 :: complex]]"
    by (simp add: rect_def nrows_def ncols_def)
  from t sh have "low_pass [[10, - 2], [- 4, 0]] [[0, 1 / 2], [1 / 2, sqrt (1 / 2)]] (1 / 2) 5
      = Inr (map2 (map2 (\<lambda>z x. z * complex_of_real (butterworth x (1 / 2) 5)))
             [[10, - 2], [- 4, 0]] [[0, 1 / 2], [1 / 2, sqrt (1 / 2)]])"
    by blast
  then have lp: "low_pass [[10, - 2], [- 4, 0]] [[0, 1 / 2], [1 / 2, sqrt (1 / 2)]] (1 / 2) 5
      = Inr [[10, - 1], [- 2, 0]]"
    unfolding f .
  from t get_mic_freqs_example rfft2_example
  have "bin_mic [[1, 2], [3, 4]] 1 (1 / 2) None True 5
       = (case fourier_crop
                 (map2 (map2 (\<lambda>z x. z * complex_of_real (butterworth x (1 / 2) 5)))
                    [[10, - 2], [- 4, 0]] [[0, 1 / 2], [1 / 2, sqrt (1 / 2)]])
                 [[0, 1 / 2], [1 / 2, sqrt (1 / 2)]] (1 / 2) of
            Inl e \<Rightarrow> Inl e
          | Inr mic_ft_crop \<Rightarrow> irfft2 mic_ft_crop)"
    by blast
  then have b: "bin_mic [[1, 2], [3, 4]] 1 (1 / 2) None True 5
       = (case fourier_crop [[10, - 1], [- 2, 0]] [[0, 1 / 2], [1 / 2, sqrt (1 / 2)]] (1 / 2) of
            Inl e \<Rightarrow> Inl e
          | Inr mic_ft_crop \<Rightarrow> irfft2 mic_ft_crop)"
    unfolding f .
  from h g0 g1 get_mic_freqs_example rfft2_example lp b show ?thesis by (intro conjI)
qed

text \<open>
  C1. The specification says that \<open>bin_mic\<close>, given the field that \<open>get_mic_freqs\<close>
  computes for the image, succeeds with the result of the call without it. The code tests
  the field with \<open>if mic_freqs:\<close>: whenever the field has two or more entries, that is
  for every image but a single pixel, the test itself raises ValueError.
\<close>

theorem bin_mic_precomputed_field_raises:
  assumes "get_mic_freqs mic apix = Inr F" and "2 \<le> nrows mic * (ncols mic div 2 + 1)"
  shows "bin_mic mic apix cutoff (Some F) lp bwo = Inl ValueError"
  using bin_mic_precomputed [OF assms] .

theorem bin_mic_precomputed_field_raises_witness:
  "get_mic_freqs [[1, 2, 3, 4], [5, 6, 7, 8], [9, 10, 11, 12], [13, 14, 15, 16]] 1
      = Inr (radial (rfft_axis 4 1) (fft_axis 4 1))
   \<and> 2 \<le> nrows [[1, 2, 3, 4], [5, 6, 7, 8], [9, 10, 11, 12], [13, 14, 15, 16 :: real]]
          * (ncols [[1, 2, 3, 4], [5, 6, 7, 8], [9, 10, 11, 12], [13, 14, 15, 16 :: real]] div 2 + 1)
   \<and> bin_mic [[1, 2, 3, 4], [5, 6, 7, 8], [9, 10, 11, 12], [13, 14, 15, 16]] 1 (3 / 10)
        (Some (radial (rfft_axis 4 1) (fft_axis 4 1))) True 5 = Inl ValueError
   \<and> \<not> isl (bin_mic [[1, 2, 3, 4], [5, 6, 7, 8], [9, 10, 11, 12], [13, 14, 15, 16]] 1 (3 / 10)
        None True 5)"
proof -
  have n4: "nrows [[1, 2, 3, 4], [5, 6, 7, 8], [9, 10, 11, 12], [13, 14, 15, 16 :: real]] = 4"
    and c4: "ncols [[1, 2, 3, 4], [5, 6, 7, 8], [9, 10, 11, 12], [13, 14, 15, 16 :: real]] = 4"
    by (simp_all add: nrows_def ncols_def)
  have g: "get_mic_freqs [[1, 2, 3, 4], [5, 6, 7, 8], [9, 10, 11, 12], [13, 14, 15, 16]] 1
      = Inr (radial (rfft_axis 4 1) (fft_axis 4 1))"
    using get_mic_freqs_Inr [of "[[1, 2, 3, 4], [5, 6, 7, 8], [9, 10, 11, 12], [13, 14, 15, 16]]" 1]
    unfolding n4 c4 by simp
  have sz: "2 \<le> nrows [[1, 2, 3, 4], [5, 6, 7, 8], [9, 10, 11, 12], [13, 14, 15, 16 :: real]]
          * (ncols [[1, 2, 3, 4], [5, 6, 7, 8], [9, 10, 11, 12], [13, 14, 15, 16 :: real]] div 2 + 1)"
    unfolding n4 c4 by simp
  have cf: "choose_freqs [[1, 2, 3, 4], [5, 6, 7, 8], [9, 10, 11, 12], [13, 14, 15, 16]] 1 None
      = Inr (radial (rfft_axis 4 1) (fft_axis 4 1))"
    unfolding choose_freqs_None by (rule g)
  have "\<exists>out. bin_mic [[1, 2, 3, 4], [5, 6, 7, 8], [9, 10, 11, 12], [13, 14, 15, 16]] 1 (3 / 10)
        None True 5 = Inr out"
    by (rule bin_mic_succeeds [OF cf g zero_less_one]) (simp_all add: n4 c4)
  then have ok: "\<not> isl (bin_mic [[1, 2, 3, 4], [5, 6, 7, 8], [9, 10, 11, 12], [13, 14, 15, 16]] 1 (3 / 10)
        None True 5)"
    by auto
  from bin_mic_precomputed_field_raises [OF g sz, of "3 / 10" True 5] g sz ok
  show ?thesis by (intro conjI)
qed

text \<open>
  C2. The specification says that \<open>bin_mic\<close> rejects a cutoff that is not positive or
  that exceeds the Nyquist frequency \<open>1 / (2 * apix)\<close>, before any transform. The code
  has no check of the cutoff. A cutoff above Nyquist is accepted: on the 2 x 2 image below
  the call returns an image, and without the filter it returns the image it was given.
\<close>

theorem bin_mic_above_nyquist_counterexample:
  "(1::real) / (2 * 1) < 1
   \<and> bin_mic [[1, 2], [3, 4]] 1 1 None False 5 = Inr [[1, 2], [3, 4]]
   \<and> \<not> isl (bin_mic [[1, 2], [3, 4]] 1 1 None True 5)"
proof -
  have n: "nrows [[1, 2], [3, 4 :: real]] = 2" and c: "ncols [[1, 2], [3, 4 :: real]] = 2"
    by (simp_all add: nrows_def ncols_def)
  have g: "get_mic_freqs [[1, 2], [3, 4]] 1 = Inr (radial (rfft_axis 2 1) (fft_axis 2 1))"
    using get_mic_freqs_Inr [of "[[1, 2], [3, 4]]" 1] unfolding n c by simp
  have "\<exists>out. bin_mic [[1, 2], [3, 4]] 1 1 None True 5 = Inr out
    \<and> nrows out = 2 * (nrows [[1, 2], [3, 4 :: real]] div 2)
    \<and> (\<forall>row \<in> set out. length row = 2 * (ncols [[1, 2], [3, 4 :: real]] div 2))"
    by (rule bin_mic_above_nyquist [OF g zero_less_one]) (simp_all add: n c)
  then have "\<not> isl (bin_mic [[1, 2], [3, 4]] 1 1 None True 5)" by auto
  with bin_mic_example show ?thesis by simp
qed

text \<open>
  C2, as the code has it. \<open>bin_mic\<close> has no check of the cutoff. The frequency field is
  computed first: without a pixel, or with \<open>apix = 0\<close>, the call fails with its
  ZeroDivisionError, whatever the cutoff. For an image with a pixel and \<open>apix > 0\<close>: with
  a cutoff \<open>\<le> 0\<close> the transform and the filter succeed, the crop succeeds and is
  empty, and the call fails with the ValueError that the inverse transform raises on the
  empty spectrum; with a cutoff above every entry of the horizontal axis \<open>F[0]\<close> and of
  the first \<open>n_x div 2\<close> entries of the vertical axis \<open>F[:, 0]\<close> (entries that are at
  most the Nyquist frequency, up to rounding) nothing is rejected: on an image of at
  least two rows and two columns the crop keeps every column and \<open>2 * (n_x div 2)\<close>
  rows, and the call returns an image of \<open>2 * (n_x div 2)\<close> rows and
  \<open>2 * (n_y div 2)\<close> columns.
\<close>

theorem bin_mic_cutoff_not_validated:
  "(nrows mic = 0 \<or> ncols mic = 0 \<or> apix = 0 \<longrightarrow>
      bin_mic mic apix cutoff None lp bwo = Inl ZeroDivisionError)
   \<and> (get_mic_freqs mic apix = Inr F \<and> 0 < apix \<and> cutoff \<le> 0 \<longrightarrow>
        (\<exists>S S'. rfft2 mic = Inr S
           \<and> (if lp then low_pass S F cutoff bwo else Inr S) = Inr S'
           \<and> fourier_crop S' F cutoff = Inr []
           \<and> irfft2 [] = Inl ValueError
           \<and> bin_mic mic apix cutoff None lp bwo = Inl ValueError))
   \<and> (get_mic_freqs mic apix = Inr F \<and> 0 < apix \<and> 2 \<le> nrows mic \<and> 2 \<le> ncols mic
        \<and> (\<forall>j \<le> ncols mic div 2. F ! 0 ! j < cutoff)
        \<and> (\<forall>i < nrows mic div 2. F ! i ! 0 < cutoff) \<longrightarrow>
        (\<exists>S S' out. rfft2 mic = Inr S
           \<and> (if lp then low_pass S F cutoff bwo else Inr S) = Inr S'
           \<and> fourier_crop S' F cutoff
               = Inr (take (nrows mic div 2) S' @ drop (nrows mic - nrows mic div 2) S')
           \<and> bin_mic mic apix cutoff None lp bwo = Inr out
           \<and> nrows out = 2 * (nrows mic div 2)
           \<and> (\<forall>row \<in> set out. length row = 2 * (ncols mic div 2))))"
  using bin_mic_grid_error [of mic apix cutoff lp bwo]
    bin_mic_nonpositive_stages [of mic apix F cutoff lp bwo]
    bin_mic_above_axes [of mic apix F cutoff lp bwo]
  by blast

theorem bin_mic_cutoff_not_validated_witness:
  "bin_mic [[1, 2], [3, 4]] 0 (- 1) None True 5 = Inl ZeroDivisionError
   \<and> get_mic_freqs [[1, 2], [3, 4]] 1 = Inr [[0, 1 / 2], [1 / 2, sqrt (1 / 2)]]
   \<and> (0::real) < 1 \<and> (- 1 :: real) \<le> 0
   \<and> rfft2 [[1, 2], [3, 4]] = Inr [[10, - 2], [- 4, 0]]
   \<and> fourier_crop [[10, - 2], [- 4, 0]] [[0, 1 / 2], [1 / 2, sqrt (1 / 2)]] (- 1) = Inr []
   \<and> bin_mic [[1, 2], [3, 4]] 1 (- 1) None False 5 = Inl ValueError
   \<and> 2 \<le> nrows [[1, 2], [3, 4 :: real]] \<and> 2 \<le> ncols [[1, 2], [3, 4 :: real]]
   \<and> [[0, 1 / 2], [1 / 2, sqrt (1 / 2)]] ! 0 ! 0 < (3::real)
   \<and> [[0, 1 / 2], [1 / 2, sqrt (1 / 2)]] ! 0 ! 1 < (3::real)
   \<and> (\<exists>out. bin_mic [[1, 2], [3, 4]] 1 3 None True 5 = Inr out \<and> nrows out = 2)"
proof -
  let ?F = "[[0, 1 / 2], [1 / 2, sqrt (1 / 2)]]"
  have n: "nrows [[1, 2], [3, 4 :: real]] = 2" and c: "ncols [[1, 2], [3, 4 :: real]] = 2"
    by (simp_all add: nrows_def ncols_def)
  note g = get_mic_freqs_example
  have z: "bin_mic [[1, 2], [3, 4]] 0 (- 1) None True 5 = Inl ZeroDivisionError"
    using bin_mic_cutoff_not_validated [of "[[1, 2], [3, 4]]" 0 "- 1" True 5] by simp
  from bin_mic_cutoff_not_validated [of "[[1, 2], [3, 4]]" 1 "- 1" False 5 ?F] g
  obtain S S' where
    lo: "rfft2 [[1, 2], [3, 4]] = Inr S" "Inr S = (Inr S' :: error + complex list list)"
      "fourier_crop S' ?F (- 1) = Inr []"
      "bin_mic [[1, 2], [3, 4]] 1 (- 1) None False 5 = Inl ValueError"
    by auto
  from lo(1,2) rfft2_example have S': "S' = [[10, - 2], [- 4, 0]]" by simp
  have e0: "?F ! 0 ! 0 < (3::real)" and e1: "?F ! 0 ! 1 < (3::real)" by simp_all
  have h: "\<forall>j \<le> ncols [[1, 2], [3, 4 :: real]] div 2. ?F ! 0 ! j < 3"
  proof (intro allI impI)
    fix j :: nat assume "j \<le> ncols [[1, 2], [3, 4 :: real]] div 2"
    then have "j = 0 \<or> j = 1" unfolding c by auto
    with e0 e1 show "?F ! 0 ! j < 3" by auto
  qed
  have v: "\<forall>i < nrows [[1, 2], [3, 4 :: real]] div 2. ?F ! i ! 0 < 3"
    unfolding n by simp
  from bin_mic_cutoff_not_validated [of "[[1, 2], [3, 4]]" 1 3 True 5 ?F] g h v n c
  have hi: "\<exists>out. bin_mic [[1, 2], [3, 4]] 1 3 None True 5 = Inr out \<and> nrows out = 2"
    by auto
  from z g rfft2_example lo(3) [unfolded S'] lo(4) n c e0 e1 hi show ?thesis
    by (intro conjI) simp_all
qed

text \<open>
  C6. \<open>get_CC\<close> centres both arguments in place: after the call each of the two arrays
  in the store is the original one minus its original mean (also when both arguments are
  the same array). For arguments of equal shape the value returned is
  \<open>sum(a * b) / sqrt(sum(a ** 2) * sum(b ** 2))\<close> of the centred arrays.
\<close>

theorem get_CC_centers_in_place:
  assumes "valid h image1" and "valid h image2"
  shows "fetch (snd (get_CC image1 image2 h)) image1
        = map (map (\<lambda>x. x - mean2 (fetch h image1))) (fetch h image1)
    \<and> fetch (snd (get_CC image1 image2 h)) image2
        = map (map (\<lambda>x. x - mean2 (fetch h image2))) (fetch h image2)
    \<and> (nrows (fetch h image1) = nrows (fetch h image2)
         \<and> ncols (fetch h image1) = ncols (fetch h image2) \<longrightarrow>
        fst (get_CC image1 image2 h)
          = Inr (fl_div
                  (Fin (sum2 (map2 (map2 (*)) (fetch (snd (get_CC image1 image2 h)) image1)
                                               (fetch (snd (get_CC image1 image2 h)) image2))))
                  (Fin (sqrt (sum2 (square (fetch (snd (get_CC image1 image2 h)) image1))
                              * sum2 (square (fetch (snd (get_CC image1 image2 h)) image2)))))))"
proof -
  note g = get_CC_store [OF assms]
  have r: "rect (center (fetch h image1))" "rect (center (fetch h image2))"
    using assms by (simp_all add: valid_rect rect_center)
  have "nrows (fetch h image1) = nrows (fetch h image2)
         \<and> ncols (fetch h image1) = ncols (fetch h image2) \<longrightarrow>
        fst (get_CC image1 image2 h)
          = Inr (fl_div
                  (Fin (sum2 (map2 (map2 (*)) (center (fetch h image1)) (center (fetch h image2)))))
                  (Fin (sqrt (sum2 (square (center (fetch h image1)))
                              * sum2 (square (center (fetch h image2)))))))"
    unfolding g(3) using correlate_same_shape [OF r] by simp
  then show ?thesis unfolding g(1,2) center_def by blast
qed

theorem get_CC_centers_in_place_witness:
  "valid [Arr2 [[1, 2], [3, 4]], Arr2 [[1, 3], [2, 6]]] (Img 0)
   \<and> valid [Arr2 [[1, 2], [3, 4]], Arr2 [[1, 3], [2, 6]]] (Img 1)
   \<and> fetch (snd (get_CC (Img 0) (Img 1) [Arr2 [[1, 2], [3, 4]], Arr2 [[1, 3], [2, 6]]])) (Img 0)
       = [[- 3 / 2, - 1 / 2], [1 / 2, 3 / 2]]
   \<and> fetch (snd (get_CC (Img 0) (Img 1) [Arr2 [[1, 2], [3, 4]], Arr2 [[1, 3], [2, 6]]])) (Img 1)
       = [[- 2, 0], [- 1, 3]]
   \<and> fst (get_CC (Img 0) (Img 1) [Arr2 [[1, 2], [3, 4]], Arr2 [[1, 3], [2, 6]]])
       = Inr (Fin (7 / sqrt 70))"
proof -
  let ?h = "[Arr2 [[1, 2], [3, 4]], Arr2 [[1, 3], [2, 6]]]"
  have v: "valid ?h (Img 0)" "valid ?h (Img 1)" by (simp_all add: rect_def ncols_def)
  have c0: "center (fetch ?h (Img 0)) = [[- 3 / 2, - 1 / 2], [1 / 2, 3 / 2]]"
    by (simp add: center_def mean2_def sum2_def)
  have c1: "center (fetch ?h (Img 1)) = [[- 2, 0], [- 1, 3]]"
    by (simp add: center_def mean2_def sum2_def)
  have sh: "nrows (fetch ?h (Img 0)) = nrows (fetch ?h (Img 1))
      \<and> ncols (fetch ?h (Img 0)) = ncols (fetch ?h (Img 1))"
    by (simp add: nrows_def ncols_def)
  note t = get_CC_centers_in_place [OF v]
  from t have f0: "fetch (snd (get_CC (Img 0) (Img 1) ?h)) (Img 0) = [[- 3 / 2, - 1 / 2], [1 / 2, 3 / 2]]"
    unfolding c0 [unfolded center_def] by blast
  from t have f1: "fetch (snd (get_CC (Img 0) (Img 1) ?h)) (Img 1) = [[- 2, 0], [- 1, 3]]"
    unfolding c1 [unfolded center_def] by blast
  from t sh have "fst (get_CC (Img 0) (Img 1) ?h)
          = Inr (fl_div
                  (Fin (sum2 (map2 (map2 (*)) (fetch (snd (get_CC (Img 0) (Img 1) ?h)) (Img 0))
                                               (fetch (snd (get_CC (Img 0) (Img 1) ?h)) (Img 1)))))
                  (Fin (sqrt (sum2 (square (fetch (snd (get_CC (Img 0) (Img 1) ?h)) (Img 0)))
                              * sum2 (square (fetch (snd (get_CC (Img 0) (Img 1) ?h)) (Img 1)))))))"
    by blast
  then have "fst (get_CC (Img 0) (Img 1) ?h) = Inr (Fin (7 / sqrt 70))"
    unfolding f0 f1 by (simp add: sum2_def square_def power2_eq_square)
  with v f0 f1 show ?thesis by (intro conjI)
qed

text \<open>
  C7. For a non-constant array \<open>x\<close>, \<open>get_CC\<close> of \<open>x\<close> and a copy of \<open>x\<close> (or \<open>x\<close>
  itself) returns exactly 1, in exact arithmetic.
\<close>

theorem get_CC_self_is_one:
  assumes "valid h image1" and "valid h image2" and "fetch h image2 = fetch h image1"
    and "\<exists>u \<in> set (concat (fetch h image1)). \<exists>v \<in> set (concat (fetch h image1)). u \<noteq> v"
  shows "fst (get_CC image1 image2 h) = Inr (Fin 1)"
proof -
  let ?a = "center (fetch h image1)"
  have r: "rect ?a" using assms(1) by (simp add: valid_rect rect_center)
  from assms(4) center_nonzero have "\<exists>z \<in> set (concat ?a). z \<noteq> 0" by blast
  then have pos: "0 < sum2 (square ?a)" by (rule sum2_square_pos)
  have "fst (get_CC image1 image2 h) = correlate ?a ?a"
    using get_CC_store(3) [OF assms(1,2)] assms(3) by simp
  also have "\<dots> = Inr (fl_div (Fin (sum2 (square ?a))) (Fin (sqrt (sum2 (square ?a) * sum2 (square ?a)))))"
    using correlate_same_shape [OF r r] by (simp add: sum2_self_product)
  also have "sqrt (sum2 (square ?a) * sum2 (square ?a)) = sum2 (square ?a)"
    using pos by simp
  also have "fl_div (Fin (sum2 (square ?a))) (Fin (sum2 (square ?a))) = Fin 1"
    using pos by simp
  finally show ?thesis .
qed

theorem get_CC_self_is_one_witness:
  "valid [Arr2 [[1, 2], [3, 4]], Arr2 [[1, 2], [3, 4]]] (Img 0)
   \<and> valid [Arr2 [[1, 2], [3, 4]], Arr2 [[1, 2], [3, 4]]] (Img 1)
   \<and> fetch [Arr2 [[1, 2], [3, 4]], Arr2 [[1, 2], [3, 4]]] (Img 1)
       = fetch [Arr2 [[1, 2], [3, 4]], Arr2 [[1, 2], [3, 4]]] (Img 0)
   \<and> (1::real) \<in> set (concat (fetch [Arr2 [[1, 2], [3, 4]], Arr2 [[1, 2], [3, 4]]] (Img 0)))
   \<and> (2::real) \<in> set (concat (fetch [Arr2 [[1, 2], [3, 4]], Arr2 [[1, 2], [3, 4]]] (Img 0)))
   \<and> fst (get_CC (Img 0) (Img 1) [Arr2 [[1, 2], [3, 4]], Arr2 [[1, 2], [3, 4]]]) = Inr (Fin 1)"
proof -
  let ?h = "[Arr2 [[1, 2], [3, 4]], Arr2 [[1, 2], [3, 4]]]"
  have v: "valid ?h (Img 0)" "valid ?h (Img 1)" by (simp_all add: rect_def ncols_def)
  have e: "fetch ?h (Img 1) = fetch ?h (Img 0)" by simp
  have m: "(1::real) \<in> set (concat (fetch ?h (Img 0)))" "(2::real) \<in> set (concat (fetch ?h (Img 0)))"
    by simp_all
  then have "\<exists>u \<in> set (concat (fetch ?h (Img 0))). \<exists>v \<in> set (concat (fetch ?h (Img 0))). u \<noteq> v"
    by (intro bexI [of _ 1] bexI [of _ 2]) simp_all
  from get_CC_self_is_one [OF v e this] v e m show ?thesis by (intro conjI)
qed

text \<open>
  C3. The specification says that a patch size not below an image dimension gives no
  patches, and that \<open>get_patch_CC\<close> and \<open>get_SNR\<close> then fail with InvalidArgument. The first part
  holds; the second does not: on two 2 x 2 images the loop runs over no patch, \<open>np.mean\<close>
  of the empty list is NaN, and both functions return NaN.
\<close>

theorem get_SNR_no_patches_counterexample:
  "nrows (fetch [Arr2 [[1, 2], [3, 4]], Arr2 [[1, 3], [2, 6]]] (Img 0)) \<le> 192
   \<and> fst (get_patches (Img 0) 192 0 [Arr2 [[1, 2], [3, 4]], Arr2 [[1, 3], [2, 6]]]) = Inr 2
   \<and> snd (get_patches (Img 0) 192 0 [Arr2 [[1, 2], [3, 4]], Arr2 [[1, 3], [2, 6]]])
       = [Arr2 [[1, 2], [3, 4]], Arr2 [[1, 3], [2, 6]], Arr3 []]
   \<and> fst (get_patch_CC (Img 0) (Img 1) [Arr2 [[1, 2], [3, 4]], Arr2 [[1, 3], [2, 6]]]) = Inr NaN
   \<and> fst (get_SNR (Img 0) (Img 1) [Arr2 [[1, 2], [3, 4]], Arr2 [[1, 3], [2, 6]]]) = Inr NaN"
proof -
  let ?h = "[Arr2 [[1, 2], [3, 4]], Arr2 [[1, 3], [2, 6]]]"
  have v: "valid ?h (Img 0)" "valid ?h (Img 1)" by (simp_all add: rect_def ncols_def)
  have s: "nrows (fetch ?h (Img 0)) \<le> 192" by (simp add: nrows_def)
  then have s': "nrows (fetch ?h (Img 0)) \<le> 192 \<or> ncols (fetch ?h (Img 0)) \<le> 192" ..
  note t = get_patch_CC_no_patches [OF v s']
  from t(1) have "fst (get_patches (Img 0) 192 0 ?h) = Inr 2"
    "snd (get_patches (Img 0) 192 0 ?h) = [Arr2 [[1, 2], [3, 4]], Arr2 [[1, 3], [2, 6]], Arr3 []]"
    by simp_all
  with s t(2,3) show ?thesis by (intro conjI)
qed

text \<open>
  C3, as the code has it. When the patch size is not below one of the dimensions of the
  image, \<open>get_patches\<close> (with a positive step, as for the default \<open>overlap = 0\<close>) returns
  an empty stack of patches; \<open>get_patch_CC\<close> and \<open>get_SNR\<close>, whose patch size is 192, then
  raise nothing and return NaN, the mean over zero patches.
\<close>

theorem no_patches_gives_nan:
  assumes "valid h image1" and "valid h image2"
    and "nrows (fetch h image1) \<le> 192 \<or> ncols (fetch h image1) \<le> 192"
  shows "get_patches image1 192 0 h = (Inr (length h), h @ [Arr3 []])
    \<and> fst (get_patch_CC image1 image2 h) = Inr NaN
    \<and> fst (get_SNR image1 image2 h) = Inr NaN
    \<and> (\<forall>w overlap. 0 < py_int (real w * (1 - overlap))
          \<and> (nrows (fetch h image1) \<le> w \<or> ncols (fetch h image1) \<le> w) \<longrightarrow>
          get_patches image1 w overlap h = (Inr (length h), h @ [Arr3 []]))"
proof -
  have "\<forall>w overlap. 0 < py_int (real w * (1 - overlap))
          \<and> (nrows (fetch h image1) \<le> w \<or> ncols (fetch h image1) \<le> w) \<longrightarrow>
          get_patches image1 w overlap h = (Inr (length h), h @ [Arr3 []])"
    using patch_views_small get_patches_append by blast
  with get_patch_CC_no_patches [OF assms] show ?thesis by blast
qed

theorem no_patches_gives_nan_witness:
  "valid [Arr2 [[1, 2, 3], [4, 5, 6]], Arr2 [[1, 3, 5], [2, 6, 4]]] (Img 0)
   \<and> valid [Arr2 [[1, 2, 3], [4, 5, 6]], Arr2 [[1, 3, 5], [2, 6, 4]]] (Img 1)
   \<and> nrows (fetch [Arr2 [[1, 2, 3], [4, 5, 6]], Arr2 [[1, 3, 5], [2, 6, 4]]] (Img 0)) \<le> 192
   \<and> fst (get_patch_CC (Img 0) (Img 1) [Arr2 [[1, 2, 3], [4, 5, 6]], Arr2 [[1, 3, 5], [2, 6, 4]]])
       = Inr NaN
   \<and> fst (get_SNR (Img 0) (Img 1) [Arr2 [[1, 2, 3], [4, 5, 6]], Arr2 [[1, 3, 5], [2, 6, 4]]])
       = Inr NaN
   \<and> (0::int) < py_int (real 2 * (1 - 0))
   \<and> get_patches (Img 0) 2 0 [Arr2 [[1, 2, 3], [4, 5, 6]], Arr2 [[1, 3, 5], [2, 6, 4]]]
       = (Inr 2, [Arr2 [[1, 2, 3], [4, 5, 6]], Arr2 [[1, 3, 5], [2, 6, 4]], Arr3 []])"
proof -
  let ?h = "[Arr2 [[1, 2, 3], [4, 5, 6]], Arr2 [[1, 3, 5], [2, 6, 4]]]"
  have v: "valid ?h (Img 0)" "valid ?h (Img 1)" by (simp_all add: rect_def ncols_def)
  have s: "nrows (fetch ?h (Img 0)) \<le> 192" by (simp add: nrows_def)
  then have s': "nrows (fetch ?h (Img 0)) \<le> 192 \<or> ncols (fetch ?h (Img 0)) \<le> 192" ..
  have st: "(0::int) < py_int (real 2 * (1 - 0))" by (simp add: py_int_def)
  have s2: "nrows (fetch ?h (Img 0)) \<le> 2 \<or> ncols (fetch ?h (Img 0)) \<le> 2"
    by (simp add: nrows_def)
  note t = no_patches_gives_nan [OF v s']
  from t st s2 have "get_patches (Img 0) 2 0 ?h = (Inr (length ?h), ?h @ [Arr3 []])" by blast
  then have g: "get_patches (Img 0) 2 0 ?h
       = (Inr 2, [Arr2 [[1, 2, 3], [4, 5, 6]], Arr2 [[1, 3, 5], [2, 6, 4]], Arr3 []])"
    by simp
  from t have "fst (get_patch_CC (Img 0) (Img 1) ?h) = Inr NaN"
    "fst (get_SNR (Img 0) (Img 1) ?h) = Inr NaN" by blast+
  with v s st g show ?thesis by (intro conjI)
qed

text \<open>
  C5. For four images of equal shape, \<open>get_denoised_SNR\<close> returns the pair
  \<open>(mixed ** 2 / raw_snr, raw_snr)\<close> with \<open>mixed = (mixed1 + mixed2) / 2\<close>, where
  \<open>raw_snr\<close>, \<open>mixed1\<close> and \<open>mixed2\<close> are what \<open>get_SNR\<close> returns for the pairs
  (raw_even, raw_odd), (denoised_even, raw_odd) and (raw_even, denoised_odd) on the
  images as they were passed in: the three calls do not disturb one another.
\<close>

theorem get_denoised_SNR_formula:
  assumes "valid h raw_even" and "valid h raw_odd" and "valid h denoised_even" and "valid h denoised_odd"
    and "nrows (fetch h raw_odd) = nrows (fetch h raw_even)"
    and "ncols (fetch h raw_odd) = ncols (fetch h raw_even)"
    and "nrows (fetch h denoised_even) = nrows (fetch h raw_even)"
    and "ncols (fetch h denoised_even) = ncols (fetch h raw_even)"
    and "nrows (fetch h denoised_odd) = nrows (fetch h raw_even)"
    and "ncols (fetch h denoised_odd) = ncols (fetch h raw_even)"
  shows "\<exists>raw_snr mixed1 mixed2.
      fst (get_SNR raw_even raw_odd h) = Inr raw_snr
    \<and> fst (get_SNR denoised_even raw_odd h) = Inr mixed1
    \<and> fst (get_SNR raw_even denoised_odd h) = Inr mixed2
    \<and> fst (get_denoised_SNR raw_even raw_odd denoised_even denoised_odd h)
        = Inr (fl_div (fl_sq (fl_div (fl_add mixed1 mixed2) (Fin 2))) raw_snr, raw_snr)"
  using get_denoised_SNR_value [OF assms] .

theorem get_denoised_SNR_formula_witness:
  "valid [Arr2 (ramp 193 1 2), Arr2 (ramp 193 2 1), Arr2 (ramp 193 1 1), Arr2 (ramp 193 3 1)] (Img 0)
   \<and> valid [Arr2 (ramp 193 1 2), Arr2 (ramp 193 2 1), Arr2 (ramp 193 1 1), Arr2 (ramp 193 3 1)] (Img 1)
   \<and> valid [Arr2 (ramp 193 1 2), Arr2 (ramp 193 2 1), Arr2 (ramp 193 1 1), Arr2 (ramp 193 3 1)] (Img 2)
   \<and> valid [Arr2 (ramp 193 1 2), Arr2 (ramp 193 2 1), Arr2 (ramp 193 1 1), Arr2 (ramp 193 3 1)] (Img 3)
   \<and> nrows (ramp 193 2 1) = nrows (ramp 193 1 2) \<and> ncols (ramp 193 2 1) = ncols (ramp 193 1 2)
   \<and> nrows (ramp 193 1 1) = nrows (ramp 193 1 2) \<and> ncols (ramp 193 1 1) = ncols (ramp 193 1 2)
   \<and> nrows (ramp 193 3 1) = nrows (ramp 193 1 2) \<and> ncols (ramp 193 3 1) = ncols (ramp 193 1 2)
   \<and> (\<exists>raw_snr mixed1 mixed2.
        fst (get_SNR (Img 0) (Img 1)
              [Arr2 (ramp 193 1 2), Arr2 (ramp 193 2 1), Arr2 (ramp 193 1 1), Arr2 (ramp 193 3 1)])
          = Inr raw_snr
      \<and> fst (get_SNR (Img 2) (Img 1)
              [Arr2 (ramp 193 1 2), Arr2 (ramp 193 2 1), Arr2 (ramp 193 1 1), Arr2 (ramp 193 3 1)])
          = Inr mixed1
      \<and> fst (get_SNR (Img 0) (Img 3)
              [Arr2 (ramp 193 1 2), Arr2 (ramp 193 2 1), Arr2 (ramp 193 1 1), Arr2 (ramp 193 3 1)])
          = Inr mixed2
      \<and> fst (get_denoised_SNR (Img 0) (Img 1) (Img 2) (Img 3)
              [Arr2 (ramp 193 1 2), Arr2 (ramp 193 2 1), Arr2 (ramp 193 1 1), Arr2 (ramp 193 3 1)])
          = Inr (fl_div (fl_sq (fl_div (fl_add mixed1 mixed2) (Fin 2))) raw_snr, raw_snr))"
proof -
  let ?h = "[Arr2 (ramp 193 1 2), Arr2 (ramp 193 2 1), Arr2 (ramp 193 1 1), Arr2 (ramp 193 3 1)]"
  have v: "valid ?h (Img 0)" "valid ?h (Img 1)" "valid ?h (Img 2)" "valid ?h (Img 3)"
    by (simp_all add: ramp_shape)
  have s: "nrows (fetch ?h (Img 1)) = nrows (fetch ?h (Img 0))"
    "ncols (fetch ?h (Img 1)) = ncols (fetch ?h (Img 0))"
    "nrows (fetch ?h (Img 2)) = nrows (fetch ?h (Img 0))"
    "ncols (fetch ?h (Img 2)) = ncols (fetch ?h (Img 0))"
    "nrows (fetch ?h (Img 3)) = nrows (fetch ?h (Img 0))"
    "ncols (fetch ?h (Img 3)) = ncols (fetch ?h (Img 0))"
    by (simp_all add: ramp_shape)
  from get_denoised_SNR_formula [OF v s] v show ?thesis
    by (simp only: ramp_shape simp_thms)
qed

text \<open>
  C10. For two images of equal shape whose dimensions exceed the patch size 192,
  \<open>get_patch_CC\<close> and \<open>get_SNR\<close> leave the store as it was, the two images included,
  and append two arrays to it: the stacks of the patches of the two images, which are
  not empty. The patches are copies, and it is in these copies that \<open>get_CC\<close> has
  subtracted the means.
\<close>

theorem get_patch_CC_leaves_images_unchanged:
  assumes "valid h image1" and "valid h image2"
    and "nrows (fetch h image1) = nrows (fetch h image2)"
    and "ncols (fetch h image1) = ncols (fetch h image2)"
    and "192 < nrows (fetch h image1)" and "192 < ncols (fetch h image1)"
  shows "\<exists>P Q. P \<noteq> [] \<and> Q \<noteq> []
    \<and> patch_views (fetch h image1) 192 0 = Inr P \<and> patch_views (fetch h image2) 192 0 = Inr Q
    \<and> snd (get_patch_CC image1 image2 h) = h @ [Arr3 (map center P), Arr3 (map center Q)]
    \<and> snd (get_SNR image1 image2 h) = h @ [Arr3 (map center P), Arr3 (map center Q)]
    \<and> fetch (snd (get_patch_CC image1 image2 h)) image1 = fetch h image1
    \<and> fetch (snd (get_patch_CC image1 image2 h)) image2 = fetch h image2
    \<and> fetch (snd (get_SNR image1 image2 h)) image1 = fetch h image1
    \<and> fetch (snd (get_SNR image1 image2 h)) image2 = fetch h image2"
proof -
  from get_patch_CC_same_shape [OF assms(1-4)] obtain P Q where
    P: "patch_views (fetch h image1) 192 0 = Inr P" and Q: "patch_views (fetch h image2) 192 0 = Inr Q"
    and g: "get_patch_CC image1 image2 h
        = (Inr (np_mean (map2 spec_cross_correlation P Q)),
           h @ [Arr3 (map center P), Arr3 (map center Q)])"
    by blast
  have ne: "P \<noteq> []" "Q \<noteq> []"
    using patch_views_nonempty [OF P valid_rect [OF assms(1)] assms(5,6)]
      patch_views_nonempty [OF Q valid_rect [OF assms(2)]] assms(3-6) by simp_all
  have s: "snd (get_patch_CC image1 image2 h) = h @ [Arr3 (map center P), Arr3 (map center Q)]"
    "snd (get_SNR image1 image2 h) = h @ [Arr3 (map center P), Arr3 (map center Q)]"
    by (simp_all add: g get_SNR_def)
  have f: "fetch (h @ [Arr3 (map center P), Arr3 (map center Q)]) image1 = fetch h image1"
    "fetch (h @ [Arr3 (map center P), Arr3 (map center Q)]) image2 = fetch h image2"
    using assms(1,2) by (simp_all add: fetch_append)
  from ne P Q s f show ?thesis unfolding s by blast
qed

theorem get_patch_CC_leaves_images_unchanged_witness:
  "valid [Arr2 (ramp 193 1 2), Arr2 (ramp 193 2 1)] (Img 0)
   \<and> valid [Arr2 (ramp 193 1 2), Arr2 (ramp 193 2 1)] (Img 1)
   \<and> nrows (ramp 193 1 2) = nrows (ramp 193 2 1) \<and> ncols (ramp 193 1 2) = ncols (ramp 193 2 1)
   \<and> 192 < nrows (ramp 193 1 2) \<and> 192 < ncols (ramp 193 1 2)
   \<and> fetch (snd (get_patch_CC (Img 0) (Img 1) [Arr2 (ramp 193 1 2), Arr2 (ramp 193 2 1)])) (Img 0)
       = ramp 193 1 2
   \<and> fetch (snd (get_patch_CC (Img 0) (Img 1) [Arr2 (ramp 193 1 2), Arr2 (ramp 193 2 1)])) (Img 1)
       = ramp 193 2 1
   \<and> fetch (snd (get_SNR (Img 0) (Img 1) [Arr2 (ramp 193 1 2), Arr2 (ramp 193 2 1)])) (Img 0)
       = ramp 193 1 2
   \<and> fetch (snd (get_SNR (Img 0) (Img 1) [Arr2 (ramp 193 1 2), Arr2 (ramp 193 2 1)])) (Img 1)
       = ramp 193 2 1
   \<and> length (snd (get_patch_CC (Img 0) (Img 1) [Arr2 (ramp 193 1 2), Arr2 (ramp 193 2 1)])) = 4"
proof -
  let ?h = "[Arr2 (ramp 193 1 2), Arr2 (ramp 193 2 1)]"
  have v: "valid ?h (Img 0)" "valid ?h (Img 1)" by (simp_all add: ramp_shape)
  have s: "nrows (fetch ?h (Img 0)) = nrows (fetch ?h (Img 1))"
    "ncols (fetch ?h (Img 0)) = ncols (fetch ?h (Img 1))"
    "192 < nrows (fetch ?h (Img 0))" "192 < ncols (fetch ?h (Img 0))"
    by (simp_all add: ramp_shape)
  from get_patch_CC_leaves_images_unchanged [OF v s] obtain P Q where
    t: "snd (get_patch_CC (Img 0) (Img 1) ?h) = ?h @ [Arr3 (map center P), Arr3 (map center Q)]"
      "fetch (snd (get_patch_CC (Img 0) (Img 1) ?h)) (Img 0) = fetch ?h (Img 0)"
      "fetch (snd (get_patch_CC (Img 0) (Img 1) ?h)) (Img 1) = fetch ?h (Img 1)"
      "fetch (snd (get_SNR (Img 0) (Img 1) ?h)) (Img 0) = fetch ?h (Img 0)"
      "fetch (snd (get_SNR (Img 0) (Img 1) ?h)) (Img 1) = fetch ?h (Img 1)"
    by blast
  have l: "length (snd (get_patch_CC (Img 0) (Img 1) ?h)) = 4" unfolding t(1) by simp
  have f: "fetch ?h (Img 0) = ramp 193 1 2" "fetch ?h (Img 1) = ramp 193 2 1" by simp_all
  from v t(2-5) l show ?thesis unfolding f by (simp only: ramp_shape simp_thms)
qed

end
